theory Spec2Isabelle
  imports Complex_Main "HOL-Library.Log_Nat" "HOL-Library.Stream" "HOL-Library.Multiset"
begin

section \<open>Python numbers\<close>

text \<open>
  The planner computes with Python \<open>int\<close> (unbounded) and \<open>float\<close> (IEEE 754 binary64,
  round to nearest, ties to even). A finite float is the rational it denotes; the two
  zeros are identified, as Python's \<open>==\<close> identifies them. Every arithmetic operation
  on floats rounds its exact result with \<open>fl_round\<close>.
\<close>

datatype pyfloat = Fin rat | PosInf | NegInf | NaN

datatype pynum = PInt int | PFloat pyfloat

datatype error = OverflowError | ZeroDivisionError | ValueError | KeyError
  | FileNotFoundError | PermissionError | JSONDecodeError

definition pow2 :: "int \<Rightarrow> rat" where
  "pow2 e = (if 0 \<le> e then 2 ^ nat e else 1 / 2 ^ nat (- e))"

text \<open>\<open>ilog2 x\<close> is the binary exponent of a positive \<open>x\<close>: \<open>2 ^ ilog2 x \<le> x < 2 ^ (ilog2 x + 1)\<close>.\<close>

definition ilog2 :: "rat \<Rightarrow> int" where
  "ilog2 x = (if 1 \<le> x then bitlen \<lfloor>x\<rfloor> - 1 else - bitlen (\<lceil>1 / x\<rceil> - 1))"

text \<open>Rounding to the nearest integer, a tie going to the even neighbour.\<close>

definition rne :: "rat \<Rightarrow> int" where
  "rne x = (let f = \<lfloor>x\<rfloor>; d = x - of_int f in
     if d < 1 / 2 then f else if 1 / 2 < d then f + 1 else if even f then f else f + 1)"

text \<open>
  Rounding a rational to binary64: 53 significant bits, so the spacing of the floats
  around \<open>x\<close> is \<open>2 ^ (e - 52)\<close> for the exponent \<open>e\<close> of \<open>x\<close>, and \<open>2 ^ - 1074\<close> in the
  subnormal range; a rounded magnitude of \<open>2 ^ 1024\<close> or more is an infinity.
\<close>

definition fl_round :: "rat \<Rightarrow> pyfloat" where
  "fl_round x = (if x = 0 then Fin 0 else
     let e = max (ilog2 \<bar>x\<bar>) (- 1022);
         q = pow2 (e - 52);
         r = of_int (rne (x / q)) * q
     in if 1024 \<le> ilog2 \<bar>r\<bar> then (if 0 < x then PosInf else NegInf) else Fin r)"

text \<open>A float literal of the source denotes the float nearest to its decimal value.\<close>

definition float_lit :: "rat \<Rightarrow> pynum" where
  "float_lit x = PFloat (fl_round x)"

fun float_add :: "pyfloat \<Rightarrow> pyfloat \<Rightarrow> pyfloat" where
  "float_add NaN y = NaN"
| "float_add x NaN = NaN"
| "float_add (Fin a) (Fin b) = fl_round (a + b)"
| "float_add PosInf NegInf = NaN"
| "float_add NegInf PosInf = NaN"
| "float_add PosInf y = PosInf"
| "float_add NegInf y = NegInf"
| "float_add x PosInf = PosInf"
| "float_add x NegInf = NegInf"

fun float_mul :: "pyfloat \<Rightarrow> pyfloat \<Rightarrow> pyfloat" where
  "float_mul NaN y = NaN"
| "float_mul x NaN = NaN"
| "float_mul (Fin a) (Fin b) = fl_round (a * b)"
| "float_mul (Fin a) PosInf = (if a = 0 then NaN else if 0 < a then PosInf else NegInf)"
| "float_mul (Fin a) NegInf = (if a = 0 then NaN else if 0 < a then NegInf else PosInf)"
| "float_mul PosInf (Fin b) = (if b = 0 then NaN else if 0 < b then PosInf else NegInf)"
| "float_mul NegInf (Fin b) = (if b = 0 then NaN else if 0 < b then NegInf else PosInf)"
| "float_mul PosInf PosInf = PosInf"
| "float_mul PosInf NegInf = NegInf"
| "float_mul NegInf PosInf = NegInf"
| "float_mul NegInf NegInf = PosInf"

text \<open>Division of floats by a divisor that is not zero (Python raises on zero before dividing).\<close>

fun float_div :: "pyfloat \<Rightarrow> pyfloat \<Rightarrow> pyfloat" where
  "float_div NaN y = NaN"
| "float_div x NaN = NaN"
| "float_div (Fin a) (Fin b) = fl_round (a / b)"
| "float_div (Fin a) y = Fin 0"
| "float_div PosInf (Fin b) = (if 0 < b then PosInf else NegInf)"
| "float_div NegInf (Fin b) = (if 0 < b then NegInf else PosInf)"
| "float_div x y = NaN"

text \<open>Sequencing of computations that may raise: the first error is the result.\<close>

definition ebind :: "error + 'a \<Rightarrow> ('a \<Rightarrow> error + 'b) \<Rightarrow> error + 'b" where
  "ebind m f = (case m of Inl e \<Rightarrow> Inl e | Inr x \<Rightarrow> f x)"

text \<open>Converting an \<open>int\<close> operand to \<open>float\<close>: correctly rounded, \<open>OverflowError\<close> beyond the range.\<close>

definition to_float :: "int \<Rightarrow> error + pyfloat" where
  "to_float n = (case fl_round (of_int n) of Fin r \<Rightarrow> Inr (Fin r) | _ \<Rightarrow> Inl OverflowError)"

fun as_float :: "pynum \<Rightarrow> error + pyfloat" where
  "as_float (PInt n) = to_float n"
| "as_float (PFloat f) = Inr f"

text \<open>\<open>x + y\<close> and \<open>x * y\<close>: exact on two ints, otherwise both operands as floats.\<close>

fun py_add :: "pynum \<Rightarrow> pynum \<Rightarrow> error + pynum" where
  "py_add (PInt a) (PInt b) = Inr (PInt (a + b))"
| "py_add x y =
     ebind (as_float x) (\<lambda>f. ebind (as_float y) (\<lambda>g. Inr (PFloat (float_add f g))))"

fun py_mul :: "pynum \<Rightarrow> pynum \<Rightarrow> error + pynum" where
  "py_mul (PInt a) (PInt b) = Inr (PInt (a * b))"
| "py_mul x y =
     ebind (as_float x) (\<lambda>f. ebind (as_float y) (\<lambda>g. Inr (PFloat (float_mul f g))))"

text \<open>
  \<open>x / y\<close>: on two ints the exact quotient is rounded once (\<open>OverflowError\<close> when it is
  too large for a float); otherwise both operands as floats. A zero divisor raises
  \<open>ZeroDivisionError\<close>.
\<close>

fun py_truediv :: "pynum \<Rightarrow> pynum \<Rightarrow> error + pynum" where
  "py_truediv (PInt a) (PInt b) =
     (if b = 0 then Inl ZeroDivisionError
      else case fl_round (of_int a / of_int b) of
             Fin r \<Rightarrow> Inr (PFloat (Fin r)) | _ \<Rightarrow> Inl OverflowError)"
| "py_truediv x y =
     ebind (as_float x) (\<lambda>f. ebind (as_float y) (\<lambda>g.
       if g = Fin 0 then Inl ZeroDivisionError else Inr (PFloat (float_div f g))))"

text \<open>\<open>math.ceil\<close>: an int; \<open>OverflowError\<close> on an infinity, \<open>ValueError\<close> on a NaN.\<close>

fun math_ceil :: "pynum \<Rightarrow> error + int" where
  "math_ceil (PInt n) = Inr n"
| "math_ceil (PFloat (Fin x)) = Inr \<lceil>x\<rceil>"
| "math_ceil (PFloat NaN) = Inl ValueError"
| "math_ceil (PFloat _) = Inl OverflowError"

text \<open>
  \<open>round(x, 2)\<close>: an int is returned as it is; a finite float is rounded to two decimals
  (ties to even, on its exact value) and the decimal result read back as a float.
\<close>

fun round2 :: "pynum \<Rightarrow> pynum" where
  "round2 (PInt n) = PInt n"
| "round2 (PFloat (Fin x)) = PFloat (fl_round (of_int (rne (x * 100)) / 100))"
| "round2 (PFloat f) = PFloat f"

section \<open>Channel catalog\<close>

text \<open>
  \<open>calculate_channel_overlap(ch1, ch2, band="2.4")\<close>: the branches return the ints
  \<open>0\<close> and \<open>100\<close>, or the float \<open>(25 - separation) / 25 * 100\<close>.
\<close>

definition calculate_channel_overlap :: "int \<Rightarrow> int \<Rightarrow> string \<Rightarrow> error + pynum" where
  "calculate_channel_overlap ch1 ch2 band =
     (if band = ''2.4'' then
        (let separation = \<bar>ch1 - ch2\<bar> * 5 in
         if 25 \<le> separation then Inr (PInt 0)
         else if separation = 0 then Inr (PInt 100)
         else ebind (py_truediv (PInt (25 - separation)) (PInt 25)) (\<lambda>t. py_mul t (PInt 100)))
      else Inr (PInt (if ch1 = ch2 then 100 else 0)))"

section \<open>Layout analysis\<close>

text \<open>
  The dictionary returned by \<open>analyze_warehouse_layout\<close>, with its nested \<open>dimensions\<close>
  and \<open>ap_grid\<close> dictionaries. The dimensions are the ints of the facility description.
\<close>

record dims =
  dim_width :: int
  dim_length :: int
  dim_height :: int

record grid =
  grid_width :: int
  grid_length :: int

record layout =
  dimensions :: dims
  coverage_radius :: int
  grid_spacing :: pynum
  ap_grid :: grid
  total_aps :: int
  vertical_consideration :: string

text \<open>
  \<open>analyze_warehouse_layout(width_m, length_m, height_m)\<close>. Nothing is validated: the only
  exception it can raise is the \<open>OverflowError\<close> of an int too large for the float division.
\<close>

definition analyze_warehouse_layout :: "int \<Rightarrow> int \<Rightarrow> int \<Rightarrow> error + layout" where
  "analyze_warehouse_layout width_m length_m height_m =
     (let coverage_radius = 25 in
      ebind (py_mul (PInt coverage_radius) (float_lit (14 / 10))) (\<lambda>grid_spacing.
      ebind (ebind (py_truediv (PInt width_m) grid_spacing) math_ceil) (\<lambda>aps_width.
      ebind (ebind (py_truediv (PInt length_m) grid_spacing) math_ceil) (\<lambda>aps_length.
        let total_aps = aps_width * aps_length;
            vertical_consideration =
              (if 10 < height_m then ''High ceiling detected - consider downtilt antennas''
               else ''Standard ceiling height - omnidirectional antennas suitable'')
        in Inr \<lparr>dimensions = \<lparr>dim_width = width_m, dim_length = length_m, dim_height = height_m\<rparr>,
                coverage_radius = coverage_radius,
                grid_spacing = grid_spacing,
                ap_grid = \<lparr>grid_width = aps_width, grid_length = aps_length\<rparr>,
                total_aps = total_aps,
                vertical_consideration = vertical_consideration\<rparr>))))"

section \<open>Channel plan\<close>

text \<open>The channel tables of \<open>ChannelOptimizer.__init__\<close>: channel number, frequency and bandwidth.\<close>

definition channels_24ghz :: "(int \<times> int \<times> bool) list" where
  "channels_24ghz = [(1, 2412, True), (6, 2437, True), (11, 2462, True)]"

definition channels_5ghz :: "(int \<times> int \<times> int) list" where
  "channels_5ghz = [(36, 5180, 20), (40, 5200, 20), (44, 5220, 20), (48, 5240, 20),
     (149, 5745, 20), (153, 5765, 20), (157, 5785, 20), (161, 5805, 20)]"

text \<open>\<open>range(n)\<close>: the ints from 0 up to \<open>n - 1\<close>, none when \<open>n \<le> 0\<close>.\<close>

definition py_range :: "int \<Rightarrow> int list" where
  "py_range n = [0..n - 1]"

text \<open>
  \<open>_create_channel_pattern(channels, width)\<close>. The loop appends \<open>channels[i % len(channels)]\<close>
  for each \<open>i\<close> of \<open>range(width)\<close>; the remainder by an empty list's length raises.
\<close>

fun pattern_loop :: "int list \<Rightarrow> int list \<Rightarrow> int list \<Rightarrow> error + int list" where
  "pattern_loop channels [] pattern = Inr pattern"
| "pattern_loop channels (i # rest) pattern =
     (if length channels = 0 then Inl ZeroDivisionError
      else pattern_loop channels rest
             (pattern @ [channels ! nat (i mod int (length channels))]))"

definition create_channel_pattern :: "int list \<Rightarrow> int \<Rightarrow> error + int list" where
  "create_channel_pattern channels width =
     (if width \<le> int (length channels) then Inr channels
      else pattern_loop channels (py_range width) [])"

definition calculate_tx_power :: "int \<Rightarrow> string" where
  "calculate_tx_power radius =
     (if radius \<le> 20 then ''Low (10-13 dBm)''
      else if radius \<le> 30 then ''Medium (14-17 dBm)''
      else ''High (18-20 dBm)'')"

text \<open>Decimal digits of a natural number, and the format \<open>{n:03d}\<close> of an int.\<close>

fun str_nat :: "nat \<Rightarrow> string" where
  "str_nat n = (if n < 10 then [''0123456789'' ! n]
                else str_nat (n div 10) @ [''0123456789'' ! (n mod 10)])"

definition zfill :: "nat \<Rightarrow> string \<Rightarrow> string" where
  "zfill w s = replicate (w - length s) CHR ''0'' @ s"

definition format_03d :: "int \<Rightarrow> string" where
  "format_03d n = (if n < 0 then CHR ''-'' # zfill 2 (str_nat (nat (- n)))
                   else zfill 3 (str_nat (nat n)))"

record pos =
  pos_row :: int
  pos_col :: int

record ap_config =
  ap_id :: string
  position :: pos
  channel :: int
  band :: string
  tx_power :: string

text \<open>
  \<open>generate_channel_plan(layout_analysis, use_5ghz=True)\<close>: the two nested loops, threading
  the plan built so far and the counter \<open>ap_id\<close>.
\<close>

fun col_loop ::
  "layout \<Rightarrow> bool \<Rightarrow> int list \<Rightarrow> int \<Rightarrow> int list \<Rightarrow> ap_config list \<times> int
     \<Rightarrow> error + ap_config list \<times> int" where
  "col_loop la use_5ghz channel_pattern row [] st = Inr st"
| "col_loop la use_5ghz channel_pattern row (col # cols) st =
     (if length channel_pattern = 0 then Inl ZeroDivisionError
      else
        let channel_index = (col + row * grid_width (ap_grid la)) mod int (length channel_pattern);
            channel = channel_pattern ! nat channel_index;
            ap_config = \<lparr>ap_id = ''AP-'' @ format_03d (snd st),
                         position = \<lparr>pos_row = row, pos_col = col\<rparr>,
                         channel = channel,
                         band = (if use_5ghz then ''5GHz'' else ''2.4GHz''),
                         tx_power = calculate_tx_power (coverage_radius la)\<rparr>
        in col_loop la use_5ghz channel_pattern row cols (fst st @ [ap_config], snd st + 1))"

fun row_loop ::
  "layout \<Rightarrow> bool \<Rightarrow> int list \<Rightarrow> int list \<Rightarrow> ap_config list \<times> int
     \<Rightarrow> error + ap_config list \<times> int" where
  "row_loop la use_5ghz channel_pattern [] st = Inr st"
| "row_loop la use_5ghz channel_pattern (row # rows) st =
     ebind (col_loop la use_5ghz channel_pattern row (py_range (grid_width (ap_grid la))) st)
       (row_loop la use_5ghz channel_pattern rows)"

text \<open>The channel list of the selected band: the keys of \<open>channels_5ghz\<close>, or \<open>[1, 6, 11]\<close>.\<close>

definition band_channels :: "bool \<Rightarrow> int list" where
  "band_channels use_5ghz = (if use_5ghz then map fst channels_5ghz else [1, 6, 11])"

definition generate_channel_plan :: "layout \<Rightarrow> bool \<Rightarrow> error + ap_config list" where
  "generate_channel_plan la use_5ghz =
     (let channels = band_channels use_5ghz in
      ebind (create_channel_pattern channels (grid_width (ap_grid la))) (\<lambda>channel_pattern.
      ebind (row_loop la use_5ghz channel_pattern (py_range (grid_length (ap_grid la))) ([], 1))
        (\<lambda>st. Inr (fst st))))"

text \<open>
  The channel pattern and the channel of a cell as the specification words them: the
  ordered channel list when the grid has at most as many columns as the band has channels,
  otherwise the list cycled to the column count; the cell at \<open>(row, col)\<close> takes the
  entry \<open>(col + row * cols) mod\<close> the pattern's length.
\<close>

definition spec_channel_pattern :: "int list \<Rightarrow> int \<Rightarrow> int list" where
  "spec_channel_pattern channels cols =
     (if cols \<le> int (length channels) then channels
      else map (\<lambda>i. channels ! nat (i mod int (length channels))) (py_range cols))"

definition spec_cell_channel :: "int list \<Rightarrow> int \<Rightarrow> int \<Rightarrow> int \<Rightarrow> int" where
  "spec_cell_channel pattern cols row col =
     pattern ! nat ((col + row * cols) mod int (length pattern))"

section \<open>Capacity estimate\<close>

text \<open>
  Dictionaries keep their keys in insertion order: an association list. \<open>d.get(k, dflt)\<close>
  and the assignment \<open>d[k] = v\<close>, which replaces the value of a key already present and
  appends a new key at the end.
\<close>

definition dict_get :: "('k \<times> 'v) list \<Rightarrow> 'k \<Rightarrow> 'v \<Rightarrow> 'v" where
  "dict_get d k dflt = (case map_of d k of None \<Rightarrow> dflt | Some v \<Rightarrow> v)"

fun dict_set :: "('k \<times> 'v) list \<Rightarrow> 'k \<Rightarrow> 'v \<Rightarrow> ('k \<times> 'v) list" where
  "dict_set [] k v = [(k, v)]"
| "dict_set (e # d) k v = (if fst e = k then (k, v) # d else e # dict_set d k v)"

text \<open>The table of bandwidth per device, in Mbps: three float literals and three ints.\<close>

definition bandwidth_per_device :: "(string \<times> pynum) list" where
  "bandwidth_per_device =
     [(''handheld_scanner'', float_lit (5 / 10)),
      (''tablet'', PInt 2),
      (''laptop'', PInt 5),
      (''voice_device'', float_lit (1 / 10)),
      (''iot_sensor'', float_lit (5 / 100)),
      (''mobile_robot'', PInt 1)]"

record breakdown =
  bd_count :: int
  bd_bandwidth_per_device :: pynum
  bd_total_bandwidth :: pynum

record capacity =
  total_devices :: int
  device_breakdown :: "(string \<times> breakdown) list"
  total_bandwidth_required :: pynum
  aps_for_capacity :: int

text \<open>
  The loop of \<open>calculate_capacity_requirements\<close> over \<open>device_types.items()\<close>, threading
  \<open>total_bandwidth\<close> and \<open>device_breakdown\<close>.
\<close>

fun capacity_loop ::
  "(string \<times> int) list \<Rightarrow> pynum \<times> (string \<times> breakdown) list
     \<Rightarrow> error + pynum \<times> (string \<times> breakdown) list" where
  "capacity_loop [] st = Inr st"
| "capacity_loop (item # rest) st =
     (let device_type = fst item; cnt = snd item in
      ebind (py_mul (dict_get bandwidth_per_device device_type (PInt 1)) (PInt cnt)) (\<lambda>bandwidth.
      ebind (py_add (fst st) bandwidth) (\<lambda>total_bandwidth.
        capacity_loop rest
          (total_bandwidth,
           dict_set (snd st) device_type
             \<lparr>bd_count = cnt,
              bd_bandwidth_per_device = dict_get bandwidth_per_device device_type (PInt 1),
              bd_total_bandwidth = bandwidth\<rparr>))))"

definition calculate_capacity_requirements ::
  "int \<Rightarrow> (string \<times> int) list \<Rightarrow> error + capacity" where
  "calculate_capacity_requirements num_devices device_types =
     ebind (capacity_loop device_types (PInt 0, [])) (\<lambda>st.
     ebind (py_mul (fst st) (float_lit (13 / 10))) (\<lambda>total_bandwidth.
     ebind (ebind (py_truediv total_bandwidth (PInt 150)) math_ceil) (\<lambda>aps.
       Inr \<lparr>total_devices = num_devices,
            device_breakdown = snd st,
            total_bandwidth_required = round2 total_bandwidth,
            aps_for_capacity = aps\<rparr>)))"

text \<open>
  The estimate as the specification works it, in exact arithmetic: the bandwidth of a type
  is its weight (0.5, 2, 5, 0.1, 0.05 or 1 by the table, 1 for a label that is not in it)
  times its count; the bandwidths are summed across the types, the sum is multiplied by
  1.3, and the access-point count is the ceiling of the total divided by 150.
\<close>

definition exact_weight :: "string \<Rightarrow> rat" where
  "exact_weight t =
     dict_get [(''handheld_scanner'', 5 / 10), (''tablet'', 2), (''laptop'', 5),
               (''voice_device'', 1 / 10), (''iot_sensor'', 5 / 100), (''mobile_robot'', 1)] t 1"

definition exact_sum :: "(string \<times> int) list \<Rightarrow> rat" where
  "exact_sum devs = sum_list (map (\<lambda>d. exact_weight (fst d) * of_int (snd d)) devs)"

definition exact_total_bandwidth :: "(string \<times> int) list \<Rightarrow> rat" where
  "exact_total_bandwidth devs = exact_sum devs * (13 / 10)"

definition exact_ap_count :: "(string \<times> int) list \<Rightarrow> int" where
  "exact_ap_count devs = \<lceil>exact_total_bandwidth devs / 150\<rceil>"

text \<open>
  Rounding errors. Each float operation is off by a factor between \<open>1 - u\<close> and \<open>1 + u\<close>,
  with \<open>u = 2 ^ - 53\<close>; \<open>close_to k a x\<close> says that \<open>x\<close> is the exact value \<open>a\<close> after
  at most \<open>k\<close> such factors, and \<open>approx k a p\<close> says so of a finite Python number.
\<close>

definition unit_roundoff :: rat where
  "unit_roundoff = 1 / 2 ^ 53"

definition close_to :: "nat \<Rightarrow> rat \<Rightarrow> rat \<Rightarrow> bool" where
  "close_to k a x = (a * (1 - unit_roundoff) ^ k \<le> x \<and> x \<le> a * (1 + unit_roundoff) ^ k)"

fun approx :: "nat \<Rightarrow> rat \<Rightarrow> pynum \<Rightarrow> bool" where
  "approx k a (PInt n) = close_to k a (of_int n)"
| "approx k a (PFloat (Fin r)) = close_to k a r"
| "approx k a (PFloat f) = False"

text \<open>
  The values the error analysis follows: zero, or between \<open>2 ^ - 20\<close> and \<open>2 ^ 100\<close>, far
  from the subnormal and the overflow range of the floats.
\<close>

definition in_range :: "rat \<Rightarrow> bool" where
  "in_range a = ((a = 0 \<or> 1 / 2 ^ 20 \<le> a) \<and> a \<le> 2 ^ 100)"

text \<open>The device mix of the example scenario in \<open>main\<close>.\<close>

definition example_device_types :: "(string \<times> int) list" where
  "example_device_types =
     [(''handheld_scanner'', 200), (''tablet'', 50), (''laptop'', 30),
      (''voice_device'', 150), (''iot_sensor'', 50), (''mobile_robot'', 20)]"

section \<open>Interference sampling\<close>

record finding =
  f_type :: string
  f_frequency :: string
  f_impact :: string
  f_mitigation :: string

text \<open>
  The random source is a stream of raw draws: \<open>_randbelow(n)\<close> takes the next draw modulo
  \<open>n\<close>, so the streams range over every outcome of the generator and over nothing else.
\<close>

type_synonym rng = "nat stream"

definition randbelow :: "nat \<Rightarrow> rng \<Rightarrow> nat \<times> rng" where
  "randbelow n g = (if n = 0 then 0 else shd g mod n, stl g)"

text \<open>\<open>random.randint(a, b)\<close> is \<open>a + _randbelow(b + 1 - a)\<close>, \<open>ValueError\<close> on an empty range.\<close>

definition randint :: "int \<Rightarrow> int \<Rightarrow> rng \<Rightarrow> (error + int) \<times> rng" where
  "randint a b g =
     (let width = b + 1 - a in
      if 0 < width then (Inr (a + int (fst (randbelow (nat width) g))), snd (randbelow (nat width) g))
      else (Inl ValueError, g))"

text \<open>
  \<open>random.sample(population, k)\<close>, by the pool algorithm CPython uses for a population
  of at most 21 elements: \<open>j = randbelow(n - i); result[i] = pool[j]; pool[j] = pool[n - i - 1]\<close>
  for \<open>i\<close> in \<open>range(k)\<close>. The slots of \<open>result\<close> are filled in order: an append.
\<close>

fun sample_loop :: "nat \<Rightarrow> nat list \<Rightarrow> 'a list \<Rightarrow> 'a list \<Rightarrow> rng \<Rightarrow> 'a list \<times> rng" where
  "sample_loop n [] pool result g = (result, g)"
| "sample_loop n (i # rest) pool result g =
     (let j = fst (randbelow (n - i) g); g' = snd (randbelow (n - i) g)
      in sample_loop n rest (pool[j := pool ! (n - i - 1)]) (result @ [pool ! j]) g')"

definition sample :: "'a list \<Rightarrow> int \<Rightarrow> rng \<Rightarrow> (error + 'a list) \<times> rng" where
  "sample population k g =
     (let n = length population in
      if \<not> (0 \<le> k \<and> k \<le> int n) then (Inl ValueError, g)
      else (Inr (fst (sample_loop n [0..<nat k] population [] g)),
            snd (sample_loop n [0..<nat k] population [] g)))"

text \<open>The catalog and the body of \<open>detect_interference_sources\<close>.\<close>

definition interference_sources :: "finding list" where
  "interference_sources =
     [\<lparr>f_type = ''Bluetooth devices'', f_frequency = ''2.4 GHz'', f_impact = ''Low'',
       f_mitigation = ''Use 5GHz band for critical devices''\<rparr>,
      \<lparr>f_type = ''Microwave ovens (break rooms)'', f_frequency = ''2.45 GHz'', f_impact = ''High'',
       f_mitigation = ''Avoid channel 9-11 near break areas''\<rparr>,
      \<lparr>f_type = ''Wireless barcode scanners'', f_frequency = ''2.4 GHz'', f_impact = ''Medium'',
       f_mitigation = ''Implement band steering to 5GHz''\<rparr>,
      \<lparr>f_type = ''Security cameras (wireless)'', f_frequency = ''2.4/5 GHz'', f_impact = ''Medium'',
       f_mitigation = ''Use wired backhaul for cameras''\<rparr>,
      \<lparr>f_type = ''Industrial equipment (variable frequency drives)'',
       f_frequency = ''Broadband noise'', f_impact = ''Low-Medium'',
       f_mitigation = ''Ensure proper equipment shielding''\<rparr>]"

definition detect_interference_sources :: "rng \<Rightarrow> (error + finding list) \<times> rng" where
  "detect_interference_sources g =
     (case randint 2 4 g of
        (Inl e, g') \<Rightarrow> (Inl e, g')
      | (Inr k, g') \<Rightarrow> sample interference_sources k g')"

section \<open>Optimization report\<close>

record summary =
  recommended_aps :: int
  primary_band :: string
  secondary_band :: string
  estimated_coverage :: string

record plan_summary =
  plan_total_aps :: int
  channels_used :: "int set"
  sample_assignments :: "ap_config list"

record report =
  warehouse :: string
  timestamp :: string
  executive_summary :: summary
  layout_analysis :: layout
  capacity_analysis :: capacity
  channel_plan_summary :: plan_summary
  interference_analysis :: "finding list"
  recommendations :: "string list"

record device_info =
  info_total_devices :: int
  info_device_types :: "(string \<times> int) list"

text \<open>
  What a run can read and change besides its arguments: the random source, the clock
  (the successive readings of \<open>datetime.datetime.now().isoformat()\<close>), the lines printed,
  the files, and the interpreter's limit on the decimal digits of an int converted to
  text (\<open>sys.get_int_max_str_digits()\<close>: 4300 by default, 0 for no limit, as in every
  CPython before the limit was introduced). A path is absent, not accessible, or a file;
  a file holds the JSON of a report, some other JSON object, or text that is not JSON.
\<close>

datatype file_content = Report_json report | Other_json | Not_json

datatype path_state = Absent | Denied | File file_content

record world =
  rng :: rng
  clock :: "string stream"
  stdout :: "string list"
  files :: "string \<Rightarrow> path_state"
  int_max_str_digits :: nat

definition print_line :: "string \<Rightarrow> world \<Rightarrow> world" where
  "print_line s w = w\<lparr>stdout := stdout w @ [s]\<rparr>"

definition str_int :: "int \<Rightarrow> string" where
  "str_int n = (if n < 0 then CHR ''-'' # str_nat (nat (- n)) else str_nat (nat n))"

definition report_file :: string where
  "report_file = ''channel_optimization_report.json''"

text \<open>
  Converting an int to decimal text (\<open>int.__repr__\<close>, which \<open>json.dump\<close> calls on every
  int it writes) raises \<open>ValueError\<close> when the int has more digits than the limit; an
  int of at most 640 digits is never refused.
\<close>

definition digit_count :: "int \<Rightarrow> nat" where
  "digit_count n = length (str_nat (nat \<bar>n\<bar>))"

definition repr_too_long :: "nat \<Rightarrow> int \<Rightarrow> bool" where
  "repr_too_long limit n = (0 < limit \<and> 640 < digit_count n \<and> limit < digit_count n)"

text \<open>The ints that \<open>json.dump\<close> finds in a report, dictionary by dictionary.\<close>

fun pynum_ints :: "pynum \<Rightarrow> int list" where
  "pynum_ints (PInt n) = [n]"
| "pynum_ints (PFloat f) = []"

definition layout_ints :: "layout \<Rightarrow> int list" where
  "layout_ints la =
     [dim_width (dimensions la), dim_length (dimensions la), dim_height (dimensions la),
      coverage_radius la]
     @ pynum_ints (grid_spacing la)
     @ [grid_width (ap_grid la), grid_length (ap_grid la), total_aps la]"

definition breakdown_ints :: "breakdown \<Rightarrow> int list" where
  "breakdown_ints b =
     bd_count b # pynum_ints (bd_bandwidth_per_device b) @ pynum_ints (bd_total_bandwidth b)"

definition capacity_ints :: "capacity \<Rightarrow> int list" where
  "capacity_ints c =
     total_devices c # concat (map (\<lambda>e. breakdown_ints (snd e)) (device_breakdown c))
     @ pynum_ints (total_bandwidth_required c) @ [aps_for_capacity c]"

definition ap_config_ints :: "ap_config \<Rightarrow> int list" where
  "ap_config_ints a = [pos_row (position a), pos_col (position a), channel a]"

definition report_ints :: "report \<Rightarrow> int list" where
  "report_ints r =
     recommended_aps (executive_summary r) # layout_ints (layout_analysis r)
     @ capacity_ints (capacity_analysis r)
     @ plan_total_aps (channel_plan_summary r)
       # concat (map ap_config_ints (sample_assignments (channel_plan_summary r)))"

definition json_dump_fails :: "nat \<Rightarrow> report \<Rightarrow> bool" where
  "json_dump_fails limit r =
     (list_ex (repr_too_long limit) (report_ints r)
      \<or> (\<exists>n \<in> channels_used (channel_plan_summary r). repr_too_long limit n))"

text \<open>
  \<open>open(path, 'w')\<close> followed by \<open>json.dump\<close>: creates or replaces the file. When
  \<open>json.dump\<close> raises on an int, the file is left with the text written so far, which is
  not JSON.
\<close>

definition write_report :: "string \<Rightarrow> report \<Rightarrow> world \<Rightarrow> (error + unit) \<times> world" where
  "write_report path r w =
     (if files w path = Denied then (Inl PermissionError, w)
      else if json_dump_fails (int_max_str_digits w) r
        then (Inl ValueError, w\<lparr>files := (files w)(path := File Not_json)\<rparr>)
      else (Inr (), w\<lparr>files := (files w)(path := File (Report_json r))\<rparr>))"

text \<open>
  \<open>generate_optimization_report(warehouse_name, dimensions, device_info)\<close>, statement by
  statement; an exception leaves the function with the world as changed so far. The
  f-string of the first recommendation converts the final count to text, which Python
  refuses for an int beyond the digit limit; the count is a product of two ceilings of
  floats, or one such ceiling, and never that long (\<open>final_ap_count_short\<close> below), so
  the conversion is the total \<open>str_int\<close>.
\<close>

definition generate_optimization_report ::
  "string \<Rightarrow> dims \<Rightarrow> device_info \<Rightarrow> world \<Rightarrow> (error + report) \<times> world" where
  "generate_optimization_report warehouse_name dimensions_arg device_info_arg w0 =
     (let w1 = print_line ([CHR 0x0A] @ ''Analyzing wireless requirements for ''
                  @ warehouse_name @ ''...'') w0 in
      case analyze_warehouse_layout (dim_width dimensions_arg) (dim_length dimensions_arg)
             (dim_height dimensions_arg) of
        Inl e \<Rightarrow> (Inl e, w1)
      | Inr la \<Rightarrow>
      (case generate_channel_plan la True of
        Inl e \<Rightarrow> (Inl e, w1)
      | Inr channel_plan \<Rightarrow>
      (case detect_interference_sources (rng w1) of
        (Inl e, g) \<Rightarrow> (Inl e, w1\<lparr>rng := g\<rparr>)
      | (Inr interference, g) \<Rightarrow>
      (let w2 = w1\<lparr>rng := g\<rparr> in
       case calculate_capacity_requirements (info_total_devices device_info_arg)
              (info_device_types device_info_arg) of
        Inl e \<Rightarrow> (Inl e, w2)
      | Inr cap \<Rightarrow>
      (let final_ap_count = max (total_aps la) (aps_for_capacity cap);
           now = shd (clock w2);
           w3 = w2\<lparr>clock := stl (clock w2)\<rparr>;
           r = \<lparr>warehouse = warehouse_name,
                timestamp = now,
                executive_summary =
                  \<lparr>recommended_aps = final_ap_count,
                   primary_band = ''5 GHz'',
                   secondary_band = ''2.4 GHz (IoT and legacy devices)'',
                   estimated_coverage = ''99.9%''\<rparr>,
                layout_analysis = la,
                capacity_analysis = cap,
                channel_plan_summary =
                  \<lparr>plan_total_aps = int (length channel_plan),
                   channels_used = set (map channel channel_plan),
                   sample_assignments = take 5 channel_plan\<rparr>,
                interference_analysis = interference,
                recommendations =
                  [''Deploy '' @ str_int final_ap_count @ '' access points in a grid pattern'',
                   ''Use 5 GHz as primary band with DFS channels enabled'',
                   ''Implement band steering to move capable devices to 5 GHz'',
                   ''Configure 20 MHz channels for maximum capacity'',
                   ''Set TX power to medium (14-17 dBm) for optimal coverage'',
                   ''Enable 802.11k/v/r for seamless roaming'',
                   ''Implement QoS with voice devices on highest priority'']\<rparr>
       in case write_report report_file r w3 of
            (Inl e, w4) \<Rightarrow> (Inl e, w4)
          | (Inr u, w4) \<Rightarrow> (Inr r, w4))))))"

text \<open>The example scenario of \<open>main\<close>.\<close>

definition example_dimensions :: dims where
  "example_dimensions = \<lparr>dim_width = 200, dim_length = 300, dim_height = 12\<rparr>"

definition example_devices :: device_info where
  "example_devices = \<lparr>info_total_devices = 500, info_device_types = example_device_types\<rparr>"

section \<open>Visualizer\<close>

text \<open>
  \<open>open(path, 'r')\<close> followed by \<open>json.load\<close>. A JSON object that is not a report has
  none of the keys the visualizer subscripts first.
\<close>

definition load_report :: "string \<Rightarrow> world \<Rightarrow> error + report" where
  "load_report path w =
     (case files w path of
        Absent \<Rightarrow> Inl FileNotFoundError
      | Denied \<Rightarrow> Inl PermissionError
      | File Not_json \<Rightarrow> Inl JSONDecodeError
      | File Other_json \<Rightarrow> Inl KeyError
      | File (Report_json r) \<Rightarrow> Inr r)"

text \<open>
  \<open>visualize_channel_plan(report_file)\<close>: the \<open>try\<close> block catches \<open>FileNotFoundError\<close>
  only, prints the advice and returns; any other exception of the block propagates.
  \<open>render\<close> is the remainder of the body, the printing of the grid and the statistics
  of a loaded report.
\<close>

definition visualize_channel_plan ::
  "(report \<Rightarrow> world \<Rightarrow> (error + unit) \<times> world) \<Rightarrow> string \<Rightarrow> world \<Rightarrow> (error + unit) \<times> world" where
  "visualize_channel_plan render path w =
     (case load_report path w of
        Inl e \<Rightarrow>
          (if e = FileNotFoundError
           then (Inr (), print_line ''No report found. Run channel_optimizer.py first.'' w)
           else (Inl e, w))
      | Inr r \<Rightarrow> render r w)"

section \<open>Properties of float rounding\<close>

text \<open>
  The exponent found by \<open>ilog2\<close> is not above the number, and a magnitude of at most
  \<open>2 ^ 1023\<close> rounds to a finite float of the same sign and at most that magnitude.
\<close>

lemma pow2_powi: "pow2 e = 2 powi e"
  by (simp add: pow2_def power_int_def field_simps)

lemma pow2_pos: "0 < pow2 e"
  by (simp add: pow2_powi)

lemma pow2_mono: "a \<le> b \<Longrightarrow> pow2 a \<le> pow2 b"
  by (simp add: pow2_powi power_int_increasing)

lemma pow2_strict_mono: "a < b \<Longrightarrow> pow2 a < pow2 b"
  by (simp add: pow2_powi power_int_strict_increasing)

lemma pow2_add: "pow2 (a + b) = pow2 a * pow2 b"
  by (simp add: pow2_powi power_int_add)

lemma pow2_nonneg_int: "0 \<le> e \<Longrightarrow> pow2 e = of_int (2 ^ nat e)"
  by (simp add: pow2_def)

lemma ilog2_lower:
  assumes "0 < x"
  shows "pow2 (ilog2 x) \<le> x"
proof (cases "1 \<le> x")
  case True
  then have pos: "0 < \<lfloor>x\<rfloor>" by linarith
  then have b1: "1 \<le> bitlen \<lfloor>x\<rfloor>"
    using bitlen_eq_zero_iff [of "\<lfloor>x\<rfloor>"] bitlen_nonneg [of "\<lfloor>x\<rfloor>"] by linarith
  have "(2::int) ^ nat (bitlen \<lfloor>x\<rfloor> - 1) \<le> \<lfloor>x\<rfloor>"
    using bitlen_bounds [OF pos] by simp
  then have "(of_int (2 ^ nat (bitlen \<lfloor>x\<rfloor> - 1)) :: rat) \<le> of_int \<lfloor>x\<rfloor>"
    by (simp only: of_int_le_iff)
  also have "\<dots> \<le> x" by simp
  finally show ?thesis
    using True b1 by (simp add: ilog2_def pow2_nonneg_int)
next
  case False
  let ?m = "\<lceil>1 / x\<rceil> - 1"
  let ?k = "bitlen ?m"
  from False assms have "1 < 1 / x" by (simp add: field_simps)
  then have mpos: "0 < ?m" by linarith
  have "?m < 2 ^ nat ?k"
    using bitlen_bounds [OF mpos] by simp
  then have "\<lceil>1 / x\<rceil> \<le> 2 ^ nat ?k" by linarith
  then have "1 / x \<le> of_int (2 ^ nat ?k)"
    by (simp only: ceiling_le_iff)
  then have "1 / x \<le> 2 ^ nat ?k" by simp
  then have "1 \<le> 2 ^ nat ?k * x"
    using assms by (simp add: field_simps)
  then have le: "1 / 2 ^ nat ?k \<le> x"
    by (simp add: field_simps)
  have k0: "0 \<le> ?k" by (rule bitlen_nonneg)
  have "pow2 (- ?k) \<le> x"
  proof (cases "?k = 0")
    case True
    with le show ?thesis by (simp add: pow2_def)
  next
    case False
    with k0 have "\<not> 0 \<le> - ?k" by linarith
    with le show ?thesis by (simp add: pow2_def)
  qed
  with False show ?thesis by (simp add: ilog2_def)
qed

lemma ilog2_le:
  assumes "0 < x" "x \<le> pow2 n"
  shows "ilog2 x \<le> n"
proof (rule ccontr)
  assume "\<not> ilog2 x \<le> n"
  then have "n < ilog2 x" by simp
  then have "pow2 n < pow2 (ilog2 x)" by (rule pow2_strict_mono)
  also have "\<dots> \<le> x" by (rule ilog2_lower [OF assms(1)])
  finally show False using assms(2) by simp
qed

lemma ilog2_zero: "ilog2 0 = 0"
  by (simp add: ilog2_def bitlen_eq_zero_iff)

lemma rne_bounds: "of_int (rne z) \<le> z + 1 / 2" "z - 1 / 2 \<le> of_int (rne z)"
  by (auto simp: rne_def Let_def) linarith+

lemma rne_le_int: "z \<le> of_int n \<Longrightarrow> rne z \<le> n"
  by (auto simp: rne_def Let_def floor_le_iff le_floor_iff)

lemma rne_ge_int: "of_int n \<le> z \<Longrightarrow> n \<le> rne z"
  by (auto simp: rne_def Let_def le_floor_iff) linarith+


lemma fl_round_finite:
  assumes "\<bar>x\<bar> \<le> pow2 1023"
  shows "\<exists>r. fl_round x = Fin r \<and> \<bar>r\<bar> \<le> pow2 1023 \<and> (x \<le> 0 \<longrightarrow> r \<le> 0) \<and> (0 \<le> x \<longrightarrow> 0 \<le> r)"
proof (cases "x = 0")
  case True
  then show ?thesis
    using pow2_pos [of 1023] by (simp add: fl_round_def)
next
  case False
  define e where "e = max (ilog2 \<bar>x\<bar>) (- 1022)"
  define q where "q = pow2 (e - 52)"
  define m where "m = rne (x / q)"
  define r :: rat where "r = of_int m * q"
  define K :: int where "K = 2 ^ nat (1075 - e)"
  have e_le: "e \<le> 1023"
    using ilog2_le [of "\<bar>x\<bar>" 1023] False assms by (simp add: e_def)
  have q_pos: "0 < q" by (simp add: q_def pow2_pos)
  have "pow2 1023 = pow2 ((1075 - e) + (e - 52))" by simp
  also have "\<dots> = pow2 (1075 - e) * q"
    unfolding q_def by (rule pow2_add)
  also have "pow2 (1075 - e) = of_int K"
    unfolding K_def using e_le by (intro pow2_nonneg_int) simp
  finally have top: "pow2 1023 = of_int K * q" .
  have K_pos: "0 < K" by (simp add: K_def)
  have "x \<le> of_int K * q" "- (of_int K * q) \<le> x"
    using assms top by linarith+
  then have "x / q \<le> of_int K" "of_int (- K) \<le> x / q"
    using q_pos by (simp_all add: field_simps)
  then have m_bounds: "m \<le> K" "- K \<le> m"
    unfolding m_def by (auto intro: rne_le_int rne_ge_int)
  then have "\<bar>m\<bar> \<le> K" by linarith
  then have "(of_int \<bar>m\<bar> :: rat) \<le> of_int K" by (simp only: of_int_le_iff)
  then have "of_int \<bar>m\<bar> * q \<le> of_int K * q"
    using q_pos by (simp add: mult_right_mono)
  moreover have "\<bar>r\<bar> = of_int \<bar>m\<bar> * q"
    using q_pos by (simp add: r_def abs_mult)
  ultimately have r_le: "\<bar>r\<bar> \<le> pow2 1023" using top by simp
  have no_ovf: "\<not> 1024 \<le> ilog2 \<bar>r\<bar>"
  proof (cases "r = 0")
    case True
    then show ?thesis by (simp add: ilog2_zero)
  next
    case False
    then have "ilog2 \<bar>r\<bar> \<le> 1023"
      using r_le by (intro ilog2_le) simp_all
    then show ?thesis by simp
  qed
  have neg: "r \<le> 0" if "x \<le> 0"
  proof -
    from that q_pos have "x / q \<le> of_int 0" by (simp add: field_simps)
    then have "m \<le> 0" unfolding m_def by (rule rne_le_int)
    then have "(of_int m :: rat) \<le> 0" by simp
    then show ?thesis
      using q_pos by (simp add: r_def mult_le_0_iff)
  qed
  have pos: "0 \<le> r" if "0 \<le> x"
  proof -
    from that q_pos have "of_int 0 \<le> x / q" by (simp add: field_simps)
    then have "0 \<le> m" unfolding m_def by (rule rne_ge_int)
    then show ?thesis
      using q_pos by (simp add: r_def)
  qed
  have "fl_round x = Fin r"
    using False no_ovf by (simp add: fl_round_def Let_def e_def q_def m_def r_def)
  with r_le neg pos show ?thesis by blast
qed

lemma ilog2_upper:
  assumes "0 < x"
  shows "x < pow2 (ilog2 x + 1)"
proof (cases "1 \<le> x")
  case True
  then have pos: "0 < \<lfloor>x\<rfloor>" by linarith
  then have b1: "1 \<le> bitlen \<lfloor>x\<rfloor>"
    using bitlen_eq_zero_iff [of "\<lfloor>x\<rfloor>"] bitlen_nonneg [of "\<lfloor>x\<rfloor>"] by linarith
  have "\<lfloor>x\<rfloor> < 2 ^ nat (bitlen \<lfloor>x\<rfloor>)"
    using bitlen_bounds [OF pos] by simp
  then have "\<lfloor>x\<rfloor> + 1 \<le> 2 ^ nat (bitlen \<lfloor>x\<rfloor>)" by linarith
  then have "(of_int (\<lfloor>x\<rfloor> + 1) :: rat) \<le> of_int (2 ^ nat (bitlen \<lfloor>x\<rfloor>))"
    by (simp only: of_int_le_iff)
  moreover have "x < of_int (\<lfloor>x\<rfloor> + 1)" by linarith
  ultimately have "x < of_int (2 ^ nat (bitlen \<lfloor>x\<rfloor>))" by linarith
  then show ?thesis
    using True b1 by (simp add: ilog2_def pow2_nonneg_int)
next
  case False
  let ?m = "\<lceil>1 / x\<rceil> - 1"
  let ?k = "bitlen ?m"
  from False assms have "1 < 1 / x" by (simp add: field_simps)
  then have mpos: "0 < ?m" by linarith
  then have k1: "1 \<le> ?k"
    using bitlen_eq_zero_iff [of ?m] bitlen_nonneg [of ?m] by linarith
  have "2 ^ nat (?k - 1) \<le> ?m"
    using bitlen_bounds [OF mpos] by simp
  then have "2 ^ nat (?k - 1) < \<lceil>1 / x\<rceil>" by linarith
  then have "of_int (2 ^ nat (?k - 1)) < 1 / x"
    by (simp only: less_ceiling_iff)
  then have "2 ^ nat (?k - 1) < 1 / x" by simp
  then have "x * 2 ^ nat (?k - 1) < 1"
    using assms by (simp add: field_simps)
  then have lt: "x < 1 / 2 ^ nat (?k - 1)"
    by (simp add: field_simps)
  have "x < pow2 (- ?k + 1)"
  proof (cases "?k = 1")
    case True
    with lt show ?thesis by (simp add: pow2_def)
  next
    case False
    with k1 have "\<not> 0 \<le> - ?k + 1" by linarith
    moreover have "nat (- (- ?k + 1)) = nat (?k - 1)" by simp
    ultimately show ?thesis using lt by (simp add: pow2_def)
  qed
  with False show ?thesis by (simp add: ilog2_def)
qed

lemma ilog2_less:
  assumes "0 < x" "x < pow2 n"
  shows "ilog2 x < n"
proof (rule ccontr)
  assume "\<not> ilog2 x < n"
  then have "pow2 n \<le> pow2 (ilog2 x)" by (intro pow2_mono) simp
  also have "\<dots> \<le> x" by (rule ilog2_lower [OF assms(1)])
  finally show False using assms(2) by simp
qed

lemma rne_of_int: "rne (of_int n) = n"
  by (simp add: rne_def)


lemma pow2_diff: "pow2 (a - b) = pow2 a / pow2 b"
proof -
  have "pow2 a = pow2 ((a - b) + b)" by simp
  also have "\<dots> = pow2 (a - b) * pow2 b" by (rule pow2_add)
  finally show ?thesis using pow2_pos [of b] by (simp add: field_simps)
qed

text \<open>
  A number with a significand below \<open>2 ^ 53\<close> and an exponent in the range of binary64
  is a float, and rounding leaves it alone; the rounded value of any other number is
  within half a unit in the last place.
\<close>

lemma fl_round_representable:
  assumes "\<bar>m\<bar> < 2 ^ 53" "- 1074 \<le> e" "e \<le> 971"
  shows "fl_round (of_int m * pow2 e) = Fin (of_int m * pow2 e)"
proof (cases "m = 0")
  case True
  then show ?thesis by (simp add: fl_round_def)
next
  case False
  define x where "x = of_int m * pow2 e"
  define E where "E = max (ilog2 \<bar>x\<bar>) (- 1022)"
  define k where "k = nat (e - E + 52)"
  have x0: "x \<noteq> 0"
    using False pow2_pos [of e] by (simp add: x_def)
  have "(of_int \<bar>m\<bar> :: rat) < of_int (2 ^ 53)"
    using assms(1) by (simp only: of_int_less_iff)
  then have "of_int \<bar>m\<bar> * pow2 e < of_int (2 ^ 53) * pow2 e"
    using pow2_pos [of e] by (simp only: mult_less_cancel_right_pos)
  moreover have "\<bar>x\<bar> = of_int \<bar>m\<bar> * pow2 e"
    using pow2_pos [of e] by (simp add: x_def abs_mult)
  moreover have "of_int (2 ^ 53) * pow2 e = pow2 (53 + e)"
    by (simp add: pow2_add pow2_nonneg_int)
  ultimately have absx: "\<bar>x\<bar> < pow2 (53 + e)" by simp
  then have "ilog2 \<bar>x\<bar> < 53 + e"
    using x0 by (intro ilog2_less) simp_all
  then have E_le: "E \<le> e + 52"
    using assms(2) by (simp add: E_def)
  have "x / pow2 (E - 52) = of_int m * (pow2 e / pow2 (E - 52))"
    by (simp add: x_def)
  also have "pow2 e / pow2 (E - 52) = pow2 (e - (E - 52))"
    by (simp add: pow2_diff)
  also have "\<dots> = of_int (2 ^ k)"
    unfolding k_def using E_le by (simp add: pow2_nonneg_int algebra_simps)
  finally have quot: "x / pow2 (E - 52) = of_int (m * 2 ^ k)" by simp
  have "rne (x / pow2 (E - 52)) = m * 2 ^ k"
    by (simp only: quot rne_of_int)
  then have "of_int (rne (x / pow2 (E - 52))) * pow2 (E - 52) = x / pow2 (E - 52) * pow2 (E - 52)"
    by (simp only: quot)
  also have "\<dots> = x"
    using pow2_pos [of "E - 52"] by simp
  finally have "of_int (rne (x / pow2 (E - 52))) * pow2 (E - 52) = x" .
  moreover have "\<not> 1024 \<le> ilog2 \<bar>x\<bar>"
  proof -
    have "pow2 (53 + e) \<le> pow2 1024"
      using assms(3) by (intro pow2_mono) simp
    with absx have "\<bar>x\<bar> < pow2 1024" by simp
    then have "ilog2 \<bar>x\<bar> < 1024"
      using x0 by (intro ilog2_less) simp_all
    then show ?thesis by simp
  qed
  ultimately have "fl_round x = Fin x"
    using x0 by (simp add: fl_round_def Let_def E_def)
  then show ?thesis by (simp add: x_def)
qed

lemma fl_round_nearest:
  assumes "fl_round x = Fin r" "x \<noteq> 0"
  shows "\<bar>r - x\<bar> \<le> pow2 (max (ilog2 \<bar>x\<bar>) (- 1022) - 52) / 2"
proof -
  define q where "q = pow2 (max (ilog2 \<bar>x\<bar>) (- 1022) - 52)"
  have q_pos: "0 < q" by (simp add: q_def pow2_pos)
  have r: "r = of_int (rne (x / q)) * q"
    using assms by (simp add: fl_round_def Let_def q_def split: if_splits)
  have "\<bar>of_int (rne (x / q)) - x / q\<bar> \<le> 1 / 2"
    using rne_bounds [of "x / q"] by linarith
  then have "\<bar>of_int (rne (x / q)) - x / q\<bar> * q \<le> 1 / 2 * q"
    using q_pos by (simp only: mult_le_cancel_right_pos)
  moreover have "\<bar>of_int (rne (x / q)) - x / q\<bar> * q = \<bar>r - x\<bar>"
  proof -
    have "r - x = (of_int (rne (x / q)) - x / q) * q"
      using q_pos by (simp add: r field_simps)
    then show ?thesis using q_pos by (simp add: abs_mult)
  qed
  ultimately show ?thesis by (simp add: q_def)
qed

text \<open>
  The float literals of the source and some well-known roundings, for comparison with
  \<open>float.as_integer_ratio()\<close> and \<open>round\<close> of CPython: \<open>0.1 * 3\<close> and \<open>0.1 + 0.2\<close>
  are \<open>0.30000000000000004\<close>, \<open>round(2.675, 2)\<close> is \<open>2.67\<close>, \<open>round(0.125, 2)\<close> is
  \<open>0.12\<close>.
\<close>

lemma float_literal_values:
  "fl_round (14 / 10) = Fin (3152519739159347 / 2251799813685248)"
  "fl_round (13 / 10) = Fin (5854679515581645 / 4503599627370496)"
  "fl_round (5 / 10) = Fin (1 / 2)"
  "fl_round (1 / 10) = Fin (3602879701896397 / 36028797018963968)"
  "fl_round (5 / 100) = Fin (3602879701896397 / 72057594037927936)"
  by code_simp+

lemma round2_examples:
  "round2 (float_lit (2675 / 1000)) = float_lit (267 / 100)"
  "round2 (float_lit (125 / 1000)) = float_lit (12 / 100)"
  "round2 (PFloat (Fin (50375 / 100))) = PFloat (Fin (50375 / 100))"
  by code_simp+

lemma float_arithmetic_examples:
  "py_mul (float_lit (1 / 10)) (PInt 3) = Inr (PFloat (Fin (5404319552844596 / 18014398509481984)))"
  "py_add (float_lit (1 / 10)) (float_lit (2 / 10)) = Inr (PFloat (Fin (5404319552844596 / 18014398509481984)))"
  "py_truediv (PInt 1) (PInt 3) = Inr (PFloat (Fin (6004799503160661 / 18014398509481984)))"
  by code_simp+

section \<open>Properties of the channel catalog\<close>

lemma overlap_partial:
  "ebind (py_truediv (PInt 20) (PInt 25)) (\<lambda>t. py_mul t (PInt 100)) = Inr (PFloat (Fin 80))"
  "ebind (py_truediv (PInt 15) (PInt 25)) (\<lambda>t. py_mul t (PInt 100)) = Inr (PFloat (Fin 60))"
  "ebind (py_truediv (PInt 10) (PInt 25)) (\<lambda>t. py_mul t (PInt 100)) = Inr (PFloat (Fin 40))"
  "ebind (py_truediv (PInt 5) (PInt 25)) (\<lambda>t. py_mul t (PInt 100)) = Inr (PFloat (Fin 20))"
  by code_simp+

text \<open>
  C5. On the 2.4 GHz band the overlap of channels \<open>a\<close> and \<open>b\<close> is 0 when
  \<open>|a - b| * 5 \<ge> 25\<close>, 100 when \<open>a = b\<close>, and otherwise \<open>(25 - |a - b| * 5) / 25 * 100\<close>,
  which the float arithmetic of the code computes without rounding error; so channels 1
  and 6 give 0, 1 and 1 give 100, 1 and 3 give 60. On any other band (the 5 GHz band) it is
  100 when \<open>a = b\<close> and 0 otherwise. The function never raises.
\<close>

theorem calculate_channel_overlap_spec:
  "calculate_channel_overlap a b ''2.4'' =
     Inr (if 25 \<le> \<bar>a - b\<bar> * 5 then PInt 0
          else if a = b then PInt 100
          else PFloat (Fin ((25 - of_int (\<bar>a - b\<bar> * 5)) / 25 * 100)))
   \<and> (bnd \<noteq> ''2.4'' \<longrightarrow>
        calculate_channel_overlap a b bnd = Inr (PInt (if a = b then 100 else 0)))
   \<and> calculate_channel_overlap 1 6 ''2.4'' = Inr (PInt 0)
   \<and> calculate_channel_overlap 1 1 ''2.4'' = Inr (PInt 100)
   \<and> calculate_channel_overlap 1 3 ''2.4'' = Inr (PFloat (Fin 60))"
proof -
  have general: "calculate_channel_overlap x y ''2.4'' =
     Inr (if 25 \<le> \<bar>x - y\<bar> * 5 then PInt 0
          else if x = y then PInt 100
          else PFloat (Fin ((25 - of_int (\<bar>x - y\<bar> * 5)) / 25 * 100)))" for x y :: int
  proof -
    consider "5 \<le> \<bar>x - y\<bar>" | "x = y" | "\<bar>x - y\<bar> = 1" | "\<bar>x - y\<bar> = 2"
      | "\<bar>x - y\<bar> = 3" | "\<bar>x - y\<bar> = 4"
      by linarith
    then show ?thesis
    proof cases
      case 1
      then show ?thesis by (simp add: calculate_channel_overlap_def)
    next
      case 2
      then show ?thesis by (simp add: calculate_channel_overlap_def)
    next
      case 3
      then have "x \<noteq> y" by linarith
      with 3 show ?thesis by (simp add: calculate_channel_overlap_def overlap_partial del: py_truediv.simps py_mul.simps)
    next
      case 4
      then have "x \<noteq> y" by linarith
      with 4 show ?thesis by (simp add: calculate_channel_overlap_def overlap_partial del: py_truediv.simps py_mul.simps)
    next
      case 5
      then have "x \<noteq> y" by linarith
      with 5 show ?thesis by (simp add: calculate_channel_overlap_def overlap_partial del: py_truediv.simps py_mul.simps)
    next
      case 6
      then have "x \<noteq> y" by linarith
      with 6 show ?thesis by (simp add: calculate_channel_overlap_def overlap_partial del: py_truediv.simps py_mul.simps)
    qed
  qed
  have other: "bnd \<noteq> ''2.4'' \<longrightarrow>
        calculate_channel_overlap a b bnd = Inr (PInt (if a = b then 100 else 0))"
    by (simp add: calculate_channel_overlap_def)
  have e3: "calculate_channel_overlap 1 3 ''2.4'' = Inr (PFloat (Fin 60))"
    by (simp add: calculate_channel_overlap_def overlap_partial del: py_truediv.simps py_mul.simps)
  show ?thesis
    using general [of a b] general [of 1 6] general [of 1 1] other e3 by simp
qed

theorem calculate_channel_overlap_spec_witness:
  "''5'' \<noteq> ''2.4'' \<and> calculate_channel_overlap 36 40 ''5'' = Inr (PInt 0)
   \<and> calculate_channel_overlap 36 36 ''5'' = Inr (PInt 100)
   \<and> calculate_channel_overlap 1 2 ''2.4'' = Inr (PFloat (Fin 80))"
  using calculate_channel_overlap_spec [of 36 40 "''5''"]
    calculate_channel_overlap_spec [of 36 36 "''5''"]
    calculate_channel_overlap_spec [of 1 2 "''5''"]
  by simp

section \<open>Properties of the layout analysis\<close>

lemma analyze_example_value:
  "analyze_warehouse_layout (dim_width example_dimensions) (dim_length example_dimensions)
     (dim_height example_dimensions) =
     Inr \<lparr>dimensions = \<lparr>dim_width = 200, dim_length = 300, dim_height = 12\<rparr>,
          coverage_radius = 25,
          grid_spacing = PFloat (Fin 35),
          ap_grid = \<lparr>grid_width = 6, grid_length = 9\<rparr>,
          total_aps = 54,
          vertical_consideration = ''High ceiling detected - consider downtilt antennas''\<rparr>"
  by code_simp

text \<open>
  C3. For the 200 by 300 m facility of height 12 m the grid spacing is 25 * 1.4 = 35 (the
  float product is exactly 35), the grid has ceil(200/35) = 6 columns and ceil(300/35) = 9
  rows, 54 access points in all, and the advisory is the high-ceiling one, since 12 > 10.
\<close>

theorem analyze_warehouse_layout_example:
  "analyze_warehouse_layout 200 300 12 =
     Inr \<lparr>dimensions = \<lparr>dim_width = 200, dim_length = 300, dim_height = 12\<rparr>,
          coverage_radius = 25,
          grid_spacing = PFloat (Fin 35),
          ap_grid = \<lparr>grid_width = 6, grid_length = 9\<rparr>,
          total_aps = 54,
          vertical_consideration = ''High ceiling detected - consider downtilt antennas''\<rparr>"
  by code_simp

lemma grid_spacing_value: "py_mul (PInt 25) (float_lit (14 / 10)) = Inr (PFloat (Fin 35))"
  by code_simp

lemma aps_along:
  assumes "\<bar>w\<bar> \<le> 2 ^ 1023"
  shows "\<exists>k. ebind (py_truediv (PInt w) (PFloat (Fin 35))) math_ceil = Inr k
           \<and> (w \<le> 0 \<longrightarrow> k \<le> 0) \<and> (0 \<le> w \<longrightarrow> 0 \<le> k)"
proof -
  have "(of_int \<bar>w\<bar> :: rat) \<le> of_int (2 ^ 1023)"
    using assms by (simp only: of_int_le_iff)
  then have w_le: "\<bar>of_int w :: rat\<bar> \<le> pow2 1023"
    by (simp add: pow2_def)
  obtain r1 where r1: "fl_round (of_int w) = Fin r1" "\<bar>r1\<bar> \<le> pow2 1023"
    "w \<le> 0 \<longrightarrow> r1 \<le> 0" "0 \<le> w \<longrightarrow> 0 \<le> r1"
    using fl_round_finite [OF w_le] by auto
  have "\<bar>r1 / 35\<bar> \<le> \<bar>r1\<bar>" by (simp add: field_simps)
  with r1(2) have "\<bar>r1 / 35\<bar> \<le> pow2 1023" by linarith
  then obtain r2 where r2: "fl_round (r1 / 35) = Fin r2"
    "r1 / 35 \<le> 0 \<longrightarrow> r2 \<le> 0" "0 \<le> r1 / 35 \<longrightarrow> 0 \<le> r2"
    using fl_round_finite [of "r1 / 35"] by auto
  have "ebind (py_truediv (PInt w) (PFloat (Fin 35))) math_ceil = Inr \<lceil>r2\<rceil>"
    by (simp add: ebind_def to_float_def r1(1) r2(1))
  moreover have "w \<le> 0 \<longrightarrow> \<lceil>r2\<rceil> \<le> 0"
    using r1(3) r2(2) by (auto simp: ceiling_le_iff)
  moreover have "0 \<le> w \<longrightarrow> 0 \<le> \<lceil>r2\<rceil>"
    using r1(4) r2(3) by (auto simp: le_ceiling_iff)
  ultimately show ?thesis by blast
qed

text \<open>
  C6, as the code has it. \<open>analyze_warehouse_layout\<close> validates nothing: a zero width gives
  a grid of zero columns and zero access points, returned as any other layout.
\<close>

theorem analyze_warehouse_layout_zero_width:
  "analyze_warehouse_layout 0 300 12 =
     Inr \<lparr>dimensions = \<lparr>dim_width = 0, dim_length = 300, dim_height = 12\<rparr>,
          coverage_radius = 25,
          grid_spacing = PFloat (Fin 35),
          ap_grid = \<lparr>grid_width = 0, grid_length = 9\<rparr>,
          total_aps = 0,
          vertical_consideration = ''High ceiling detected - consider downtilt antennas''\<rparr>"
  by code_simp

text \<open>
  C6, amended. For every width and length of magnitude at most \<open>2 ^ 1023\<close> and every
  height, zero and negative ones included, \<open>analyze_warehouse_layout\<close> raises nothing and
  returns a layout: it records the dimensions as given, a width or length that is not
  positive gives a column or row count that is not positive, a zero width or length gives
  zero access points, and a height that is not positive only selects the
  standard-ceiling advisory.
\<close>

theorem analyze_warehouse_layout_no_validation:
  assumes "\<bar>w\<bar> \<le> 2 ^ 1023" and "\<bar>l\<bar> \<le> 2 ^ 1023"
  shows "\<exists>la. analyze_warehouse_layout w l h = Inr la
     \<and> dimensions la = \<lparr>dim_width = w, dim_length = l, dim_height = h\<rparr>
     \<and> total_aps la = grid_width (ap_grid la) * grid_length (ap_grid la)
     \<and> (w \<le> 0 \<longrightarrow> grid_width (ap_grid la) \<le> 0)
     \<and> (l \<le> 0 \<longrightarrow> grid_length (ap_grid la) \<le> 0)
     \<and> (w = 0 \<or> l = 0 \<longrightarrow> total_aps la = 0)
     \<and> (h \<le> 10 \<longrightarrow> vertical_consideration la =
           ''Standard ceiling height - omnidirectional antennas suitable'')"
proof -
  obtain kw where kw: "ebind (py_truediv (PInt w) (PFloat (Fin 35))) math_ceil = Inr kw"
    "w \<le> 0 \<longrightarrow> kw \<le> 0" "0 \<le> w \<longrightarrow> 0 \<le> kw"
    using aps_along [OF assms(1)] by blast
  obtain kl where kl: "ebind (py_truediv (PInt l) (PFloat (Fin 35))) math_ceil = Inr kl"
    "l \<le> 0 \<longrightarrow> kl \<le> 0" "0 \<le> l \<longrightarrow> 0 \<le> kl"
    using aps_along [OF assms(2)] by blast
  have "analyze_warehouse_layout w l h =
      Inr \<lparr>dimensions = \<lparr>dim_width = w, dim_length = l, dim_height = h\<rparr>,
           coverage_radius = 25,
           grid_spacing = PFloat (Fin 35),
           ap_grid = \<lparr>grid_width = kw, grid_length = kl\<rparr>,
           total_aps = kw * kl,
           vertical_consideration =
              (if 10 < h then ''High ceiling detected - consider downtilt antennas''
               else ''Standard ceiling height - omnidirectional antennas suitable'')\<rparr>"
    unfolding analyze_warehouse_layout_def Let_def grid_spacing_value
    by (simp add: ebind_def [of "Inr _"] kw(1) kl(1) del: py_truediv.simps)
  moreover have "w = 0 \<or> l = 0 \<longrightarrow> kw * kl = 0"
    using kw(2,3) kl(2,3) by auto
  ultimately show ?thesis
    using kw(2) kl(2) by simp
qed

theorem analyze_warehouse_layout_no_validation_witness:
  "\<exists>la. analyze_warehouse_layout (- 70) 300 0 = Inr la
     \<and> dimensions la = \<lparr>dim_width = - 70, dim_length = 300, dim_height = 0\<rparr>
     \<and> grid_width (ap_grid la) \<le> 0
     \<and> vertical_consideration la =
           ''Standard ceiling height - omnidirectional antennas suitable''"
proof -
  have "(2::int) ^ 9 \<le> 2 ^ 1023"
    by (rule power_increasing) simp_all
  then have b: "\<bar>- 70 :: int\<bar> \<le> 2 ^ 1023" "\<bar>300 :: int\<bar> \<le> 2 ^ 1023"
    by simp_all
  show ?thesis
    using analyze_warehouse_layout_no_validation [OF b, of 0] by auto
qed

section \<open>Properties of the channel plan\<close>

lemma pattern_loop_eq:
  "channels \<noteq> [] \<Longrightarrow>
   pattern_loop channels is acc =
     Inr (acc @ map (\<lambda>i. channels ! nat (i mod int (length channels))) is)"
  by (induction "is" arbitrary: acc) simp_all

lemma create_channel_pattern_eq:
  "channels \<noteq> [] \<Longrightarrow> create_channel_pattern channels w = Inr (spec_channel_pattern channels w)"
  by (simp add: create_channel_pattern_def spec_channel_pattern_def pattern_loop_eq)

lemma spec_channel_pattern_nonempty:
  "channels \<noteq> [] \<Longrightarrow> spec_channel_pattern channels w \<noteq> []"
  by (auto simp: spec_channel_pattern_def py_range_def)

lemma col_loop_char:
  "pattern \<noteq> [] \<Longrightarrow>
   \<exists>st'. col_loop la u pattern row cols st = Inr st'
     \<and> map position (fst st') = map position (fst st) @ map (\<lambda>c. \<lparr>pos_row = row, pos_col = c\<rparr>) cols
     \<and> map channel (fst st') =
         map channel (fst st) @ map (spec_cell_channel pattern (grid_width (ap_grid la)) row) cols"
proof (induction cols arbitrary: st)
  case Nil
  then show ?case by simp
next
  case (Cons c cols)
  show ?case
    using Cons.prems Cons.IH [OF Cons.prems, of "(fst st @ [\<lparr>ap_id = ''AP-'' @ format_03d (snd st),
                         position = \<lparr>pos_row = row, pos_col = c\<rparr>,
                         channel = spec_cell_channel pattern (grid_width (ap_grid la)) row c,
                         band = (if u then ''5GHz'' else ''2.4GHz''),
                         tx_power = calculate_tx_power (coverage_radius la)\<rparr>], snd st + 1)"]
    by (auto simp: Let_def spec_cell_channel_def)
qed

lemma row_loop_char:
  "pattern \<noteq> [] \<Longrightarrow>
   \<exists>st'. row_loop la u pattern rows st = Inr st'
     \<and> map position (fst st') = map position (fst st)
          @ map (\<lambda>(r, c). \<lparr>pos_row = r, pos_col = c\<rparr>) (List.product rows (py_range (grid_width (ap_grid la))))
     \<and> map channel (fst st') = map channel (fst st)
          @ map (\<lambda>(r, c). spec_cell_channel pattern (grid_width (ap_grid la)) r c)
              (List.product rows (py_range (grid_width (ap_grid la))))"
proof (induction rows arbitrary: st)
  case Nil
  then show ?case by simp
next
  case (Cons r rows)
  obtain st1 where 1: "col_loop la u pattern r (py_range (grid_width (ap_grid la))) st = Inr st1"
    and 2: "map position (fst st1) = map position (fst st) @ map (\<lambda>c. \<lparr>pos_row = r, pos_col = c\<rparr>) (py_range (grid_width (ap_grid la)))"
    and 3: "map channel (fst st1) =
         map channel (fst st) @ map (spec_cell_channel pattern (grid_width (ap_grid la)) r) (py_range (grid_width (ap_grid la)))"
    using col_loop_char [OF Cons.prems] by blast
  obtain st2 where 4: "row_loop la u pattern rows st1 = Inr st2"
    and 5: "map position (fst st2) = map position (fst st1)
          @ map (\<lambda>(r, c). \<lparr>pos_row = r, pos_col = c\<rparr>) (List.product rows (py_range (grid_width (ap_grid la))))"
    and 6: "map channel (fst st2) = map channel (fst st1)
          @ map (\<lambda>(r, c). spec_cell_channel pattern (grid_width (ap_grid la)) r c)
              (List.product rows (py_range (grid_width (ap_grid la))))"
    using Cons.IH [OF Cons.prems] by blast
  show ?case
    by (simp add: 1 2 3 4 5 6 ebind_def comp_def)
qed


lemma band_channels_nonempty: "band_channels u \<noteq> []"
  by (simp add: band_channels_def channels_5ghz_def)

lemma generate_channel_plan_char:
  "\<exists>plan. generate_channel_plan la u = Inr plan
     \<and> map position plan = map (\<lambda>(r, c). \<lparr>pos_row = r, pos_col = c\<rparr>)
          (List.product (py_range (grid_length (ap_grid la))) (py_range (grid_width (ap_grid la))))
     \<and> map channel plan =
         map (\<lambda>(r, c). spec_cell_channel
                (spec_channel_pattern (band_channels u) (grid_width (ap_grid la)))
                (grid_width (ap_grid la)) r c)
          (List.product (py_range (grid_length (ap_grid la))) (py_range (grid_width (ap_grid la))))"
proof -
  let ?w = "grid_width (ap_grid la)"
  let ?pattern = "spec_channel_pattern (band_channels u) ?w"
  have ne: "?pattern \<noteq> []"
    by (rule spec_channel_pattern_nonempty) (rule band_channels_nonempty)
  obtain st' where 1: "row_loop la u ?pattern (py_range (grid_length (ap_grid la))) ([], 1) = Inr st'"
    and 2: "map position (fst st') = map position (fst ([] :: ap_config list, 1 :: int))
          @ map (\<lambda>(r, c). \<lparr>pos_row = r, pos_col = c\<rparr>)
              (List.product (py_range (grid_length (ap_grid la))) (py_range ?w))"
    and 3: "map channel (fst st') = map channel (fst ([] :: ap_config list, 1 :: int))
          @ map (\<lambda>(r, c). spec_cell_channel ?pattern ?w r c)
              (List.product (py_range (grid_length (ap_grid la))) (py_range ?w))"
    using row_loop_char [OF ne, of la u "py_range (grid_length (ap_grid la))" "([], 1)"] by blast
  have "generate_channel_plan la u = Inr (fst st')"
    unfolding generate_channel_plan_def Let_def
    by (simp add: create_channel_pattern_eq band_channels_nonempty ebind_def 1)
  with 2 3 show ?thesis by simp
qed

lemma length_py_range: "length (py_range n) = nat n"
  by (simp add: py_range_def)

lemma nth_py_range: "k < nat n \<Longrightarrow> py_range n ! k = int k"
  by (simp add: py_range_def)

lemma product_py_range_nth:
  assumes "0 \<le> r" "r < l" "0 \<le> c" "c < w"
  shows "nat (r * w + c) < length (List.product (py_range l) (py_range w))"
    and "List.product (py_range l) (py_range w) ! nat (r * w + c) = (r, c)"
proof -
  have eq: "nat (r * w + c) = nat r * nat w + nat c"
    using assms by (simp add: nat_add_distrib nat_mult_distrib)
  have "nat r * nat w + nat c < nat r * nat w + nat w"
    using assms by simp
  also have "\<dots> = Suc (nat r) * nat w" by simp
  also have "\<dots> \<le> nat l * nat w"
    using assms by (intro mult_le_mono1) linarith
  finally have lt: "nat r * nat w + nat c < nat l * nat w" .
  then show "nat (r * w + c) < length (List.product (py_range l) (py_range w))"
    by (simp add: eq length_py_range)
  have cw: "nat c < nat w" using assms by simp
  have d: "(nat r * nat w + nat c) div nat w = nat r"
    using cw by simp
  have m: "(nat r * nat w + nat c) mod nat w = nat c"
    using cw by simp
  have rl: "nat r < nat l" using assms by simp
  show "List.product (py_range l) (py_range w) ! nat (r * w + c) = (r, c)"
    using lt assms by (simp add: eq product_nth length_py_range d m nth_py_range rl cw)
qed

text \<open>
  C1. For every layout and either band, \<open>generate_channel_plan\<close> returns a plan whose
  cells are the grid's cells in row-major order, the cell at \<open>(row, col)\<close> carrying the
  channel \<open>pattern[(col + row * cols) mod len(pattern)]\<close>, where the pattern is the channel
  list itself when \<open>cols \<le> len(channels)\<close> and otherwise has length \<open>cols\<close> with entry
  \<open>i\<close> equal to \<open>channels[i mod len(channels)]\<close>. On a grid of 2 columns and 2 rows with
  the three 2.4 GHz channels the whole pattern is cycled: the cells get 1, 6, 11, 1.
\<close>

theorem generate_channel_plan_pattern:
  "(\<exists>plan. generate_channel_plan la u = Inr plan
     \<and> map position plan = map (\<lambda>(r, c). \<lparr>pos_row = r, pos_col = c\<rparr>)
          (List.product (py_range (grid_length (ap_grid la))) (py_range (grid_width (ap_grid la))))
     \<and> map channel plan =
         map (\<lambda>(r, c). spec_cell_channel
                (spec_channel_pattern (band_channels u) (grid_width (ap_grid la)))
                (grid_width (ap_grid la)) r c)
          (List.product (py_range (grid_length (ap_grid la))) (py_range (grid_width (ap_grid la)))))
   \<and> ebind (analyze_warehouse_layout 60 60 8) (\<lambda>la. generate_channel_plan la False) =
       Inr [\<lparr>ap_id = ''AP-001'', position = \<lparr>pos_row = 0, pos_col = 0\<rparr>, channel = 1,
              band = ''2.4GHz'', tx_power = ''Medium (14-17 dBm)''\<rparr>,
            \<lparr>ap_id = ''AP-002'', position = \<lparr>pos_row = 0, pos_col = 1\<rparr>, channel = 6,
              band = ''2.4GHz'', tx_power = ''Medium (14-17 dBm)''\<rparr>,
            \<lparr>ap_id = ''AP-003'', position = \<lparr>pos_row = 1, pos_col = 0\<rparr>, channel = 11,
              band = ''2.4GHz'', tx_power = ''Medium (14-17 dBm)''\<rparr>,
            \<lparr>ap_id = ''AP-004'', position = \<lparr>pos_row = 1, pos_col = 1\<rparr>, channel = 1,
              band = ''2.4GHz'', tx_power = ''Medium (14-17 dBm)''\<rparr>]"
proof -
  have ex: "ebind (analyze_warehouse_layout 60 60 8) (\<lambda>la. generate_channel_plan la False) =
       Inr [\<lparr>ap_id = ''AP-001'', position = \<lparr>pos_row = 0, pos_col = 0\<rparr>, channel = 1,
              band = ''2.4GHz'', tx_power = ''Medium (14-17 dBm)''\<rparr>,
            \<lparr>ap_id = ''AP-002'', position = \<lparr>pos_row = 0, pos_col = 1\<rparr>, channel = 6,
              band = ''2.4GHz'', tx_power = ''Medium (14-17 dBm)''\<rparr>,
            \<lparr>ap_id = ''AP-003'', position = \<lparr>pos_row = 1, pos_col = 0\<rparr>, channel = 11,
              band = ''2.4GHz'', tx_power = ''Medium (14-17 dBm)''\<rparr>,
            \<lparr>ap_id = ''AP-004'', position = \<lparr>pos_row = 1, pos_col = 1\<rparr>, channel = 1,
              band = ''2.4GHz'', tx_power = ''Medium (14-17 dBm)''\<rparr>]"
    by code_simp
  show ?thesis
    using generate_channel_plan_char [of la u] ex by blast
qed

text \<open>
  C10. When the grid has more columns than the selected band has channels, the pattern has
  one entry per column, the cell index reduces to the column, and the access point at
  \<open>(row, col)\<close> gets \<open>channels[col mod len(channels)]\<close> whatever the row: two access points
  of the same column are on the same channel.
\<close>

theorem wide_grid_column_cochannel:
  assumes "int (length (band_channels u)) < grid_width (ap_grid la)"
    and "0 \<le> col" "col < grid_width (ap_grid la)"
    and "0 \<le> row" "row < grid_length (ap_grid la)"
    and "0 \<le> row'" "row' < grid_length (ap_grid la)"
  shows "\<exists>plan. generate_channel_plan la u = Inr plan
     \<and> nat (row * grid_width (ap_grid la) + col) < length plan
     \<and> position (plan ! nat (row * grid_width (ap_grid la) + col)) = \<lparr>pos_row = row, pos_col = col\<rparr>
     \<and> channel (plan ! nat (row * grid_width (ap_grid la) + col)) =
         band_channels u ! nat (col mod int (length (band_channels u)))
     \<and> channel (plan ! nat (row' * grid_width (ap_grid la) + col)) =
         channel (plan ! nat (row * grid_width (ap_grid la) + col))"
proof -
  let ?w = "grid_width (ap_grid la)"
  let ?l = "grid_length (ap_grid la)"
  let ?cells = "List.product (py_range ?l) (py_range ?w)"
  let ?pattern = "spec_channel_pattern (band_channels u) ?w"
  obtain plan where p: "generate_channel_plan la u = Inr plan"
    and pos: "map position plan = map (\<lambda>(r, c). \<lparr>pos_row = r, pos_col = c\<rparr>) ?cells"
    and ch: "map channel plan = map (\<lambda>(r, c). spec_cell_channel ?pattern ?w r c) ?cells"
    using generate_channel_plan_char [of la u] by blast
  have len: "length plan = length ?cells"
    using pos by (metis length_map)
  have pat: "?pattern = map (\<lambda>i. band_channels u ! nat (i mod int (length (band_channels u)))) (py_range ?w)"
    using assms(1) by (simp add: spec_channel_pattern_def)
  have cell: "nat (r * ?w + col) < length plan
      \<and> position (plan ! nat (r * ?w + col)) = \<lparr>pos_row = r, pos_col = col\<rparr>
      \<and> channel (plan ! nat (r * ?w + col)) = band_channels u ! nat (col mod int (length (band_channels u)))"
    if r: "0 \<le> r" "r < ?l" for r
  proof -
    have lt: "nat (r * ?w + col) < length ?cells"
      and nth: "?cells ! nat (r * ?w + col) = (r, col)"
      using product_py_range_nth [OF r assms(2,3)] by simp_all
    have "position (plan ! nat (r * ?w + col)) = map position plan ! nat (r * ?w + col)"
      using lt len by simp
    also have "\<dots> = \<lparr>pos_row = r, pos_col = col\<rparr>"
      using lt nth by (simp add: pos)
    finally have 1: "position (plan ! nat (r * ?w + col)) = \<lparr>pos_row = r, pos_col = col\<rparr>" .
    have idx: "(col + r * ?w) mod int (length ?pattern) = col"
      using assms(2,3) by (simp add: pat length_py_range)
    have "channel (plan ! nat (r * ?w + col)) = map channel plan ! nat (r * ?w + col)"
      using lt len by simp
    also have "\<dots> = spec_cell_channel ?pattern ?w r col"
      using lt nth by (simp add: ch)
    also have "\<dots> = ?pattern ! nat col"
      unfolding spec_cell_channel_def idx ..
    also have "\<dots> = band_channels u ! nat (col mod int (length (band_channels u)))"
      using assms(2,3) by (simp add: pat length_py_range nth_py_range)
    finally show ?thesis using lt len 1 by simp
  qed
  show ?thesis
    using p cell [OF assms(4,5)] cell [OF assms(6,7)] by simp
qed

theorem wide_grid_column_cochannel_witness:
  "\<exists>plan. generate_channel_plan
       \<lparr>dimensions = \<lparr>dim_width = 140, dim_length = 70, dim_height = 8\<rparr>,
        coverage_radius = 25, grid_spacing = PFloat (Fin 35),
        ap_grid = \<lparr>grid_width = 4, grid_length = 2\<rparr>, total_aps = 8,
        vertical_consideration = ''Standard ceiling height - omnidirectional antennas suitable''\<rparr>
       False = Inr plan
     \<and> position (plan ! 3) = \<lparr>pos_row = 0, pos_col = 3\<rparr>
     \<and> channel (plan ! 3) = 1
     \<and> channel (plan ! 7) = 1"
  using wide_grid_column_cochannel [of False
       "\<lparr>dimensions = \<lparr>dim_width = 140, dim_length = 70, dim_height = 8\<rparr>,
        coverage_radius = 25, grid_spacing = PFloat (Fin 35),
        ap_grid = \<lparr>grid_width = 4, grid_length = 2\<rparr>, total_aps = 8,
        vertical_consideration = ''Standard ceiling height - omnidirectional antennas suitable''\<rparr>"
       3 0 1]
  by (auto simp: band_channels_def)

section \<open>Properties of the capacity estimate\<close>

lemma capacity_example:
  "calculate_capacity_requirements 500 example_device_types =
     Inr \<lparr>total_devices = 500,
          device_breakdown =
            [(''handheld_scanner'',
              \<lparr>bd_count = 200, bd_bandwidth_per_device = float_lit (5 / 10),
                bd_total_bandwidth = PFloat (Fin 100)\<rparr>),
             (''tablet'',
              \<lparr>bd_count = 50, bd_bandwidth_per_device = PInt 2,
                bd_total_bandwidth = PInt 100\<rparr>),
             (''laptop'',
              \<lparr>bd_count = 30, bd_bandwidth_per_device = PInt 5,
                bd_total_bandwidth = PInt 150\<rparr>),
             (''voice_device'',
              \<lparr>bd_count = 150, bd_bandwidth_per_device = float_lit (1 / 10),
                bd_total_bandwidth = PFloat (Fin 15)\<rparr>),
             (''iot_sensor'',
              \<lparr>bd_count = 50, bd_bandwidth_per_device = float_lit (5 / 100),
                bd_total_bandwidth = PFloat (Fin (5 / 2))\<rparr>),
             (''mobile_robot'',
              \<lparr>bd_count = 20, bd_bandwidth_per_device = PInt 1,
                bd_total_bandwidth = PInt 20\<rparr>)],
          total_bandwidth_required = PFloat (Fin (50375 / 100)),
          aps_for_capacity = 4\<rparr>"
  by code_simp

text \<open>
  Rounding to a float changes a value in range by a factor between \<open>1 - u\<close> and \<open>1 + u\<close>;
  the lemmas below follow these factors through the sum, the overhead and the division.
\<close>

lemma one_minus_pow: "0 \<le> (u::rat) \<Longrightarrow> u \<le> 1 \<Longrightarrow> 1 - of_nat k * u \<le> (1 - u) ^ k"
proof (induction k)
  case 0
  show ?case by simp
next
  case (Suc k)
  have "1 - of_nat (Suc k) * u \<le> (1 - of_nat k * u) * (1 - u)"
    using Suc.prems by (simp add: algebra_simps)
  also have "\<dots> \<le> (1 - u) ^ k * (1 - u)"
    using Suc by (intro mult_right_mono) simp_all
  finally show ?case by (simp add: mult.commute)
qed

lemma one_plus_pow:
  "0 \<le> (u::rat) \<Longrightarrow> 2 * of_nat k * u \<le> 1 \<Longrightarrow> (1 + u) ^ k \<le> 1 + 2 * of_nat k * u"
proof (induction k)
  case 0
  show ?case by simp
next
  case (Suc k)
  have k: "2 * of_nat k * u \<le> 1"
    using Suc.prems by (simp add: algebra_simps)
  have "(1 + u) ^ Suc k = (1 + u) ^ k * (1 + u)" by simp
  also have "\<dots> \<le> (1 + 2 * of_nat k * u) * (1 + u)"
    using Suc.IH [OF Suc.prems(1) k] Suc.prems(1) by (intro mult_right_mono) simp_all
  also have "\<dots> = 1 + 2 * of_nat k * u + u + (2 * of_nat k * u) * u"
    by (simp add: algebra_simps)
  also have "\<dots> \<le> 1 + 2 * of_nat k * u + u + 1 * u"
    using k Suc.prems(1) by (intro add_left_mono mult_right_mono) simp_all
  also have "\<dots> = 1 + 2 * of_nat (Suc k) * u"
    by (simp add: algebra_simps)
  finally show ?case .
qed

lemma unit_roundoff_bounds: "0 < unit_roundoff" "unit_roundoff < 1" "0 \<le> 1 - unit_roundoff"
  by (simp_all add: unit_roundoff_def)

lemma close_to_refl: "close_to k 0 0" "close_to 0 a a"
  by (simp_all add: close_to_def)

lemma close_to_nonneg: "close_to k a x \<Longrightarrow> 0 \<le> a \<Longrightarrow> 0 \<le> x"
proof -
  assume c: "close_to k a x" and a: "0 \<le> a"
  have "0 \<le> a * (1 - unit_roundoff) ^ k"
    using a unit_roundoff_bounds by (intro mult_nonneg_nonneg zero_le_power) simp_all
  with c show ?thesis by (simp add: close_to_def)
qed

lemma close_to_zero: "close_to k 0 x \<Longrightarrow> x = 0"
  by (simp add: close_to_def)

lemma close_to_mono:
  assumes "close_to k a x" "0 \<le> a" "k \<le> k'"
  shows "close_to k' a x"
proof -
  have "(1 - unit_roundoff) ^ k' \<le> (1 - unit_roundoff) ^ k"
    using assms(3) unit_roundoff_bounds by (intro power_decreasing) simp_all
  then have lo: "a * (1 - unit_roundoff) ^ k' \<le> a * (1 - unit_roundoff) ^ k"
    using assms(2) by (rule mult_left_mono)
  have "(1 + unit_roundoff) ^ k \<le> (1 + unit_roundoff) ^ k'"
    using assms(3) unit_roundoff_bounds by (intro power_increasing) simp_all
  then have hi: "a * (1 + unit_roundoff) ^ k \<le> a * (1 + unit_roundoff) ^ k'"
    using assms(2) by (rule mult_left_mono)
  from assms(1) lo hi show ?thesis by (simp add: close_to_def)
qed

lemma close_to_add: "close_to k a x \<Longrightarrow> close_to k b y \<Longrightarrow> close_to k (a + b) (x + y)"
  by (simp add: close_to_def distrib_right add_mono)

lemma close_to_mult:
  assumes "close_to j a x" "close_to k b y" "0 \<le> a" "0 \<le> b"
  shows "close_to (j + k) (a * b) (x * y)"
proof -
  have pj: "0 \<le> a * (1 - unit_roundoff) ^ j" and pk: "0 \<le> b * (1 - unit_roundoff) ^ k"
    using assms(3,4) unit_roundoff_bounds by (simp_all add: mult_nonneg_nonneg)
  have x0: "0 \<le> x" and y0: "0 \<le> y"
    using assms by (auto intro: close_to_nonneg)
  have "(a * (1 - unit_roundoff) ^ j) * (b * (1 - unit_roundoff) ^ k) \<le> x * y"
    using assms(1,2) pj pk x0 y0 by (intro mult_mono) (simp_all add: close_to_def)
  moreover have "x * y \<le> (a * (1 + unit_roundoff) ^ j) * (b * (1 + unit_roundoff) ^ k)"
    using assms(1,2) x0 y0 pj by (intro mult_mono) (auto simp: close_to_def intro: order_trans)
  ultimately show ?thesis
    by (simp add: close_to_def power_add mult_ac)
qed

lemma close_to_trans:
  assumes "close_to j a x" "close_to k x r" "0 \<le> a"
  shows "close_to (j + k) a r"
proof -
  have "a * (1 - unit_roundoff) ^ j * (1 - unit_roundoff) ^ k \<le> x * (1 - unit_roundoff) ^ k"
    using assms(1) unit_roundoff_bounds by (intro mult_right_mono) (simp_all add: close_to_def)
  moreover have "x * (1 + unit_roundoff) ^ k \<le> a * (1 + unit_roundoff) ^ j * (1 + unit_roundoff) ^ k"
    using assms(1) unit_roundoff_bounds by (intro mult_right_mono) (simp_all add: close_to_def)
  ultimately show ?thesis
    using assms(2) by (simp add: close_to_def power_add mult.assoc)
qed

lemma close_to_divide:
  assumes "close_to k a x" "0 < c"
  shows "close_to k (a / c) (x / c)"
  using assms by (simp add: close_to_def field_simps)

lemma close_to_bounds:
  assumes "close_to k a x" "0 \<le> a" "2 * of_nat k * unit_roundoff \<le> 1"
  shows "a * (1 - of_nat k * unit_roundoff) \<le> x" "x \<le> a * (1 + 2 * of_nat k * unit_roundoff)"
proof -
  have "1 - of_nat k * unit_roundoff \<le> (1 - unit_roundoff) ^ k"
    using unit_roundoff_bounds by (intro one_minus_pow) simp_all
  then have "a * (1 - of_nat k * unit_roundoff) \<le> a * (1 - unit_roundoff) ^ k"
    using assms(2) by (rule mult_left_mono)
  with assms(1) show "a * (1 - of_nat k * unit_roundoff) \<le> x"
    by (simp add: close_to_def)
  have "(1 + unit_roundoff) ^ k \<le> 1 + 2 * of_nat k * unit_roundoff"
    using unit_roundoff_bounds assms(3) by (intro one_plus_pow) simp_all
  then have "a * (1 + unit_roundoff) ^ k \<le> a * (1 + 2 * of_nat k * unit_roundoff)"
    using assms(2) by (rule mult_left_mono)
  with assms(1) show "x \<le> a * (1 + 2 * of_nat k * unit_roundoff)"
    by (simp add: close_to_def)
qed

lemma few_roundings:
  assumes "k \<le> 2 ^ 50"
  shows "of_nat k * unit_roundoff \<le> 1 / 8" "2 * of_nat k * unit_roundoff \<le> 1"
proof -
  have "(of_nat k :: rat) \<le> of_nat (2 ^ 50)"
    using assms by (simp only: of_nat_le_iff)
  then have "(of_nat k :: rat) \<le> 2 ^ 50" by simp
  then show "of_nat k * unit_roundoff \<le> 1 / 8" "2 * of_nat k * unit_roundoff \<le> 1"
    by (simp_all add: unit_roundoff_def field_simps)
qed

lemma close_to_half_double:
  assumes "close_to k a x" "0 \<le> a" "k \<le> 2 ^ 50"
  shows "a / 2 \<le> x" "x \<le> 2 * a"
proof -
  note f = few_roundings [OF assms(3)]
  have "a / 2 \<le> a * (1 - of_nat k * unit_roundoff)"
  proof -
    have "1 / 2 \<le> 1 - of_nat k * unit_roundoff" using f(1) by simp
    then have "a * (1 / 2) \<le> a * (1 - of_nat k * unit_roundoff)"
      using assms(2) by (rule mult_left_mono)
    then show ?thesis by simp
  qed
  with close_to_bounds(1) [OF assms(1,2) f(2)] show "a / 2 \<le> x" by simp
  have "a * (1 + 2 * of_nat k * unit_roundoff) \<le> a * 2"
    using f(2) assms(2) by (intro mult_left_mono) simp_all
  with close_to_bounds(2) [OF assms(1,2) f(2)] show "x \<le> 2 * a" by simp
qed

lemma fl_round_close:
  assumes "pow2 (- 1022) \<le> x" "x \<le> pow2 1023"
  shows "\<exists>r. fl_round x = Fin r \<and> close_to 1 x r"
proof -
  have xpos: "0 < x" using assms(1) pow2_pos [of "- 1022"] by linarith
  then have absx: "\<bar>x\<bar> = x" by simp
  obtain r where r: "fl_round x = Fin r"
    using fl_round_finite [of x] assms(2) absx by auto
  have e: "- 1022 \<le> ilog2 x"
  proof (rule ccontr)
    assume "\<not> - 1022 \<le> ilog2 x"
    then have "ilog2 x + 1 \<le> - 1022" by simp
    then have "pow2 (ilog2 x + 1) \<le> pow2 (- 1022)" by (rule pow2_mono)
    with ilog2_upper [OF xpos] assms(1) show False by simp
  qed
  then have m: "max (ilog2 \<bar>x\<bar>) (- 1022) = ilog2 x" by (simp add: absx)
  have "\<bar>r - x\<bar> \<le> pow2 (ilog2 x - 52) / 2"
    using fl_round_nearest [OF r] xpos m by simp
  also have "pow2 (ilog2 x - 52) / 2 = pow2 (ilog2 x) * unit_roundoff"
  proof -
    have "pow2 (ilog2 x - 52) = pow2 (ilog2 x + (- 52))" by simp
    also have "\<dots> = pow2 (ilog2 x) * pow2 (- 52)" by (rule pow2_add)
    finally show ?thesis by (simp add: pow2_def unit_roundoff_def)
  qed
  also have "\<dots> \<le> x * unit_roundoff"
    using ilog2_lower [OF xpos] unit_roundoff_bounds by (intro mult_right_mono) simp_all
  finally have "\<bar>r - x\<bar> \<le> x * unit_roundoff" .
  then have "x * (1 - unit_roundoff) \<le> r" "r \<le> x * (1 + unit_roundoff)"
    by (simp_all add: algebra_simps abs_le_iff)
  with r show ?thesis by (simp add: close_to_def)
qed

lemma fl_step:
  assumes "close_to k a x" "in_range a" "k \<le> 2 ^ 50"
  shows "\<exists>r. fl_round x = Fin r \<and> close_to (Suc k) a r"
proof (cases "a = 0")
  case True
  with assms(1) have "x = 0" by (simp add: close_to_zero)
  with True show ?thesis by (simp add: fl_round_def close_to_refl)
next
  case False
  with assms(2) have lo: "1 / 2 ^ 20 \<le> a" and hi: "a \<le> 2 ^ 100"
    by (simp_all add: in_range_def)
  then have a0: "0 \<le> a" by (simp add: order_trans [of 0 "1 / 2 ^ 20"])
  have hx: "a / 2 \<le> x" "x \<le> 2 * a"
    using close_to_half_double [OF assms(1) a0 assms(3)] by simp_all
  have "pow2 (- 1022) \<le> pow2 (- 21)" by (rule pow2_mono) simp
  also have "pow2 (- 21) = 1 / 2 ^ 21" by (simp add: pow2_def)
  also have "\<dots> \<le> x" using lo hx(1) by simp
  finally have 1: "pow2 (- 1022) \<le> x" .
  have "x \<le> 2 ^ 101" using hi hx(2) by simp
  also have "(2::rat) ^ 101 = pow2 101" by (simp add: pow2_def)
  also have "\<dots> \<le> pow2 1023" by (rule pow2_mono) simp
  finally have 2: "x \<le> pow2 1023" .
  obtain r where r: "fl_round x = Fin r" "close_to 1 x r"
    using fl_round_close [OF 1 2] by blast
  have "close_to (k + 1) a r"
    using assms(1) r(2) a0 by (rule close_to_trans)
  with r(1) show ?thesis by simp
qed

lemma in_range_nonneg: "in_range a \<Longrightarrow> 0 \<le> a"
  by (auto simp: in_range_def intro: order_trans [of 0 "1 / 2 ^ 20"])

lemma approx_mono: "approx k a p \<Longrightarrow> 0 \<le> a \<Longrightarrow> k \<le> k' \<Longrightarrow> approx k' a p"
  by (cases "(k, a, p)" rule: approx.cases) (auto intro: close_to_mono)

lemma as_float_close:
  assumes "approx k a p" "in_range a" "k \<le> 2 ^ 50"
  shows "\<exists>f. as_float p = Inr (Fin f) \<and> close_to (Suc k) a f"
proof (cases p)
  case (PInt n)
  then have "close_to k a (of_int n)" using assms(1) by simp
  then obtain r where "fl_round (of_int n) = Fin r" "close_to (Suc k) a r"
    using fl_step assms(2,3) by blast
  with PInt show ?thesis by (simp add: to_float_def)
next
  case (PFloat f)
  show ?thesis
  proof (cases f)
    case (Fin r)
    then have "close_to k a r" using assms(1) PFloat by simp
    then have "close_to (Suc k) a r"
      using in_range_nonneg [OF assms(2)] by (rule close_to_mono) simp
    with PFloat Fin show ?thesis by simp
  qed (insert assms(1) PFloat, simp_all)
qed

lemma py_add_close:
  assumes "approx k a p" "approx k b q" "in_range a" "in_range b" "in_range (a + b)"
    and "Suc k \<le> 2 ^ 50"
  shows "\<exists>z. py_add p q = Inr z \<and> approx (k + 2) (a + b) z"
proof -
  have k: "k \<le> 2 ^ 50" using assms(6) by simp
  have ab0: "0 \<le> a + b" using assms(5) by (rule in_range_nonneg)
  show ?thesis
  proof (cases "\<exists>m n. p = PInt m \<and> q = PInt n")
    case True
    then obtain m n where pq: "p = PInt m" "q = PInt n" by blast
    have "close_to k (a + b) (of_int m + of_int n)"
      using assms(1,2) pq by (intro close_to_add) simp_all
    then have "close_to (k + 2) (a + b) (of_int (m + n))"
      using ab0 by (simp add: close_to_mono)
    with pq show ?thesis by simp
  next
    case False
    obtain f where f: "as_float p = Inr (Fin f)" "close_to (Suc k) a f"
      using as_float_close [OF assms(1,3) k] by blast
    obtain g where g: "as_float q = Inr (Fin g)" "close_to (Suc k) b g"
      using as_float_close [OF assms(2,4) k] by blast
    have "close_to (Suc k) (a + b) (f + g)"
      using f(2) g(2) by (rule close_to_add)
    then obtain r where r: "fl_round (f + g) = Fin r" "close_to (Suc (Suc k)) (a + b) r"
      using fl_step assms(5,6) by blast
    have "py_add p q = ebind (as_float p) (\<lambda>f. ebind (as_float q) (\<lambda>g. Inr (PFloat (float_add f g))))"
      using False by (cases p; cases q) simp_all
    then have "py_add p q = Inr (PFloat (Fin r))"
      by (simp add: f(1) g(1) ebind_def r(1))
    with r(2) show ?thesis by simp
  qed
qed

lemma py_mul_close:
  assumes "approx j a p" "approx k b q" "in_range a" "in_range b" "in_range (a * b)"
    and "j \<le> 2 ^ 40" "k \<le> 2 ^ 40"
  shows "\<exists>z. py_mul p q = Inr z \<and> approx (j + k + 3) (a * b) z"
proof -
  have j: "j \<le> 2 ^ 50" and k: "k \<le> 2 ^ 50"
    using assms(6,7) by (auto intro: order_trans [of _ "2 ^ 40"])
  have a0: "0 \<le> a" and b0: "0 \<le> b" and ab0: "0 \<le> a * b"
    using assms(3,4,5) by (auto intro: in_range_nonneg)
  show ?thesis
  proof (cases "\<exists>m n. p = PInt m \<and> q = PInt n")
    case True
    then obtain m n where pq: "p = PInt m" "q = PInt n" by blast
    have "close_to (j + k) (a * b) (of_int m * of_int n)"
      using assms(1,2) pq a0 b0 by (intro close_to_mult) simp_all
    then have "close_to (j + k + 3) (a * b) (of_int (m * n))"
      using ab0 by (simp add: close_to_mono)
    with pq show ?thesis by simp
  next
    case False
    obtain f where f: "as_float p = Inr (Fin f)" "close_to (Suc j) a f"
      using as_float_close [OF assms(1,3) j] by blast
    obtain g where g: "as_float q = Inr (Fin g)" "close_to (Suc k) b g"
      using as_float_close [OF assms(2,4) k] by blast
    have c: "close_to (Suc j + Suc k) (a * b) (f * g)"
      using f(2) g(2) a0 b0 by (rule close_to_mult)
    have "Suc j + Suc k \<le> 2 ^ 50"
    proof -
      have "Suc j + Suc k \<le> 2 ^ 40 + 2 ^ 40 + (2::nat)" using assms(6,7) by simp
      also have "\<dots> \<le> 2 ^ 50" by simp
      finally show ?thesis .
    qed
    then obtain r where r: "fl_round (f * g) = Fin r" "close_to (Suc (Suc j + Suc k)) (a * b) r"
      using fl_step [OF c assms(5)] by blast
    have "py_mul p q = ebind (as_float p) (\<lambda>f. ebind (as_float q) (\<lambda>g. Inr (PFloat (float_mul f g))))"
      using False by (cases p; cases q) simp_all
    then have "py_mul p q = Inr (PFloat (Fin r))"
      by (simp add: f(1) g(1) ebind_def r(1))
    moreover have "Suc (Suc j + Suc k) = j + k + 3" by simp
    then have "close_to (j + k + 3) (a * b) r" using r(2) by (simp only:)
    ultimately show ?thesis by simp
  qed
qed

lemma to_float_150: "to_float 150 = Inr (Fin 150)"
  by code_simp

lemma py_truediv_150_close:
  assumes "approx k a p" "in_range a" "in_range (a / 150)" "Suc k \<le> 2 ^ 50"
  shows "\<exists>r. py_truediv p (PInt 150) = Inr (PFloat (Fin r)) \<and> close_to (k + 2) (a / 150) r"
proof -
  have k: "k \<le> 2 ^ 50" using assms(4) by simp
  have q0: "0 \<le> a / 150" using assms(3) by (rule in_range_nonneg)
  show ?thesis
  proof (cases p)
    case (PInt n)
    then have "close_to k (a / 150) (of_int n / 150)"
      using assms(1) by (simp add: close_to_divide)
    then obtain r where r: "fl_round (of_int n / 150) = Fin r" "close_to (Suc k) (a / 150) r"
      using fl_step assms(3) k by blast
    from r(2) have "close_to (k + 2) (a / 150) r"
      using q0 by (rule close_to_mono) simp
    with PInt r(1) show ?thesis by simp
  next
    case (PFloat f)
    obtain x where x: "as_float p = Inr (Fin x)" "close_to (Suc k) a x"
      using as_float_close [OF assms(1,2) k] by blast
    have "close_to (Suc k) (a / 150) (x / 150)"
      using x(2) by (simp add: close_to_divide)
    then obtain r where r: "fl_round (x / 150) = Fin r" "close_to (Suc (Suc k)) (a / 150) r"
      using fl_step assms(3,4) by blast
    have "py_truediv p (PInt 150) = Inr (PFloat (Fin r))"
      using PFloat x(1) r(1) by (simp add: ebind_def to_float_150)
    with r(2) show ?thesis by simp
  qed
qed

lemma exact_weight_bounds: "1 / 20 \<le> exact_weight t" "exact_weight t \<le> 5"
  by (simp_all add: exact_weight_def dict_get_def)

lemma weight_close: "approx 1 (exact_weight t) (dict_get bandwidth_per_device t (PInt 1))"
proof -
  have v: "fl_round (1 / 2) = Fin (1 / 2)"
    "fl_round (1 / 10) = Fin (3602879701896397 / 36028797018963968)"
    "fl_round (1 / 20) = Fin (3602879701896397 / 72057594037927936)"
    by code_simp+
  show ?thesis
    by (simp add: exact_weight_def dict_get_def bandwidth_per_device_def float_lit_def
        v close_to_def unit_roundoff_def)
qed

lemma exact_sum_Cons:
  "exact_sum (d # ds) = exact_weight (fst d) * of_int (snd d) + exact_sum ds"
  by (simp add: exact_sum_def)

lemma exact_sum_nonneg: "\<forall>d\<in>set devs. 0 \<le> snd d \<Longrightarrow> 0 \<le> exact_sum devs"
proof (induction devs)
  case Nil
  show ?case by (simp add: exact_sum_def)
next
  case (Cons d devs)
  have "0 \<le> exact_weight (fst d) * of_int (snd d)"
    using Cons.prems exact_weight_bounds(1) [of "fst d"]
    by (intro mult_nonneg_nonneg) (simp_all add: order_trans [of 0 "1 / 20"])
  with Cons show ?case by (simp add: exact_sum_Cons)
qed

lemma bandwidth_in_range:
  assumes "0 \<le> c" "exact_weight t * of_int c \<le> 2 ^ 60"
  shows "in_range (exact_weight t)" "in_range (of_int c)" "in_range (exact_weight t * of_int c)"
    "exact_weight t * of_int c = 0 \<or> 1 / 20 \<le> exact_weight t * of_int c"
proof -
  note w = exact_weight_bounds [of t]
  show "in_range (exact_weight t)"
    using w by (simp add: in_range_def)
  have grid: "exact_weight t * of_int c = 0 \<or> 1 / 20 \<le> exact_weight t * of_int c"
  proof (cases "c = 0")
    case True
    then show ?thesis by simp
  next
    case False
    with assms(1) have "1 \<le> c" by simp
    then have "(1::rat) \<le> of_int c" by simp
    then have "1 / 20 * 1 \<le> exact_weight t * of_int c"
      using w(1) by (intro mult_mono) simp_all
    then show ?thesis by simp
  qed
  then show "exact_weight t * of_int c = 0 \<or> 1 / 20 \<le> exact_weight t * of_int c" .
  have c0: "(0::rat) \<le> of_int c" using assms(1) by simp
  have "1 / 20 * of_int c \<le> exact_weight t * of_int c"
    using w(1) c0 by (rule mult_right_mono)
  with assms(2) have "(of_int c :: rat) \<le> 20 * 2 ^ 60" by simp
  also have "\<dots> \<le> 2 ^ 100" by simp
  finally have chi: "(of_int c :: rat) \<le> 2 ^ 100" .
  show "in_range (of_int c)"
  proof (cases "c = 0")
    case True
    then show ?thesis by (simp add: in_range_def)
  next
    case False
    with assms(1) have "1 \<le> c" by simp
    then have "(1::rat) \<le> of_int c" by simp
    then have "1 / 2 ^ 20 \<le> (of_int c :: rat)" by simp
    with chi show ?thesis by (simp add: in_range_def)
  qed
  have "exact_weight t * of_int c \<le> 2 ^ 100"
    using assms(2) by (rule order_trans) simp
  with grid show "in_range (exact_weight t * of_int c)"
    by (auto simp: in_range_def)
qed

lemma grid_in_range: "a = 0 \<or> 1 / 20 \<le> a \<Longrightarrow> a \<le> 2 ^ 60 \<Longrightarrow> in_range a"
  by (auto simp: in_range_def intro: order_trans [of _ "2 ^ 60"])

lemma capacity_loop_close:
  assumes "\<forall>d\<in>set devs. 0 \<le> snd d"
    and "approx k a acc" "a = 0 \<or> 1 / 20 \<le> a" "0 \<le> a"
    and "a + exact_sum devs \<le> 2 ^ 60"
    and "k + 6 * length devs \<le> 2 ^ 40"
  shows "\<exists>acc' bd'. capacity_loop devs (acc, bd) = Inr (acc', bd')
           \<and> approx (k + 6 * length devs) (a + exact_sum devs) acc'"
  using assms
proof (induction devs arbitrary: k a acc bd)
  case Nil
  then show ?case by (simp add: exact_sum_def)
next
  case (Cons d devs)
  let ?w = "exact_weight (fst d)"
  let ?c = "snd d"
  let ?b = "?w * of_int ?c"
  have c0: "0 \<le> ?c" and rest: "\<forall>d\<in>set devs. 0 \<le> snd d"
    using Cons.prems(1) by simp_all
  have s0: "0 \<le> exact_sum devs" using rest by (rule exact_sum_nonneg)
  have b0: "0 \<le> ?b"
    using c0 exact_weight_bounds(1) [of "fst d"]
    by (intro mult_nonneg_nonneg) (simp_all add: order_trans [of 0 "1 / 20"])
  have total: "a + ?b + exact_sum devs \<le> 2 ^ 60"
    using Cons.prems(5) by (simp add: exact_sum_Cons add.assoc)
  have b_le: "?b \<le> 2 ^ 60" and a_le: "a \<le> 2 ^ 60" and ab_le: "a + ?b \<le> 2 ^ 60"
    using total s0 b0 Cons.prems(4) by linarith+
  note rb = bandwidth_in_range [OF c0 b_le]
  have kk: "k \<le> 2 ^ 40" using Cons.prems(6) by simp
  have "approx 0 (of_int ?c) (PInt ?c)" by (simp add: close_to_refl)
  then obtain z where z: "py_mul (dict_get bandwidth_per_device (fst d) (PInt 1)) (PInt ?c) = Inr z"
      "approx (1 + 0 + 3) ?b z"
    using py_mul_close [OF weight_close _ rb(1,2,3), of 0 "PInt ?c"] by auto
  define m where "m = max k 4"
  have m: "k \<le> m" "4 \<le> m" "m + 2 \<le> k + 6" by (simp_all add: m_def)
  have "m \<le> 2 ^ 40" using kk by (simp add: m_def)
  then have "Suc m \<le> 2 ^ 40 + 1" by simp
  also have "\<dots> \<le> (2::nat) ^ 50" by simp
  finally have sm: "Suc m \<le> 2 ^ 50" .
  have ra: "in_range a" using Cons.prems(3) a_le by (rule grid_in_range)
  have gab: "a + ?b = 0 \<or> 1 / 20 \<le> a + ?b"
    using Cons.prems(3,4) rb(4) b0 by auto
  have rab: "in_range (a + ?b)" using gab ab_le by (rule grid_in_range)
  have "approx m a acc"
    using Cons.prems(2,4) m(1) by (rule approx_mono)
  moreover have "1 + 0 + 3 \<le> m" using m(2) by simp
  then have "approx m ?b z"
    by (rule approx_mono [OF z(2) b0])
  ultimately obtain acc1 where acc1: "py_add acc z = Inr acc1" "approx (m + 2) (a + ?b) acc1"
    using py_add_close [OF _ _ ra rb(3) rab sm] by blast
  have ab0: "0 \<le> a + ?b" using Cons.prems(4) b0 by simp
  have a1: "approx (k + 6) (a + ?b) acc1"
    using acc1(2) ab0 m(3) by (rule approx_mono)
  have k6: "k + 6 + 6 * length devs \<le> 2 ^ 40" using Cons.prems(6) by simp
  obtain acc' bd' where fin: "capacity_loop devs
        (acc1, dict_set bd (fst d)
           \<lparr>bd_count = ?c,
            bd_bandwidth_per_device = dict_get bandwidth_per_device (fst d) (PInt 1),
            bd_total_bandwidth = z\<rparr>) = Inr (acc', bd')"
      "approx (k + 6 + 6 * length devs) (a + ?b + exact_sum devs) acc'"
    using Cons.IH [OF rest a1 gab ab0 total k6] by blast
  have "capacity_loop (d # devs) (acc, bd) = Inr (acc', bd')"
    by (simp add: Let_def ebind_def z(1) acc1(1) fin(1))
  moreover have "k + 6 + 6 * length devs = k + 6 * length (d # devs)" by simp
  moreover have "a + ?b + exact_sum devs = a + exact_sum (d # devs)"
    by (simp add: exact_sum_Cons)
  ultimately show ?case using fin(2) by (simp only:) blast
qed

lemma exact_sum_grid:
  "\<forall>d\<in>set devs. 0 \<le> snd d \<Longrightarrow> exact_sum devs = 0 \<or> 1 / 20 \<le> exact_sum devs"
proof (induction devs)
  case Nil
  show ?case by (simp add: exact_sum_def)
next
  case (Cons d devs)
  have s0: "0 \<le> exact_sum devs" using Cons.prems by (intro exact_sum_nonneg) simp
  have c0: "0 \<le> snd d" using Cons.prems by simp
  have "exact_weight (fst d) * of_int (snd d) = 0 \<or> 1 / 20 \<le> exact_weight (fst d) * of_int (snd d)"
  proof (cases "snd d = 0")
    case True
    then show ?thesis by simp
  next
    case False
    with c0 have "1 \<le> snd d" by simp
    then have "(1::rat) \<le> of_int (snd d)" by simp
    then have "1 / 20 * 1 \<le> exact_weight (fst d) * of_int (snd d)"
      using exact_weight_bounds(1) [of "fst d"] by (intro mult_mono) simp_all
    then show ?thesis by simp
  qed
  moreover have "exact_sum devs = 0 \<or> 1 / 20 \<le> exact_sum devs"
    using Cons by simp
  ultimately show ?case
    using s0 by (auto simp: exact_sum_Cons)
qed

lemma float_lit_13_close: "approx 1 (13 / 10) (float_lit (13 / 10))"
proof -
  have "fl_round (13 / 10) = Fin (5854679515581645 / 4503599627370496)"
    by code_simp
  then show ?thesis
    by (simp add: float_lit_def close_to_def unit_roundoff_def)
qed

lemma capacity_estimate_close:
  assumes "\<forall>d\<in>set devs. 0 \<le> snd d" "length devs \<le> 1000"
    and "exact_total_bandwidth devs \<le> 10 ^ 12"
  shows "\<exists>r z q. calculate_capacity_requirements n devs = Inr r \<and> total_devices r = n
           \<and> total_bandwidth_required r = round2 z
           \<and> approx (6 * length devs + 4) (exact_total_bandwidth devs) z
           \<and> aps_for_capacity r = \<lceil>q\<rceil>
           \<and> close_to (6 * length devs + 6) (exact_total_bandwidth devs / 150) q"
proof -
  let ?S = "exact_sum devs"
  let ?T = "exact_total_bandwidth devs"
  let ?K = "6 * length devs"
  have S0: "0 \<le> ?S" using assms(1) by (rule exact_sum_nonneg)
  have T: "?T = ?S * (13 / 10)" by (simp add: exact_total_bandwidth_def)
  have "?S \<le> ?S * (13 / 10)" using S0 by simp
  with assms(3) T have S_le: "?S \<le> 10 ^ 12" by simp
  have big: "(10::rat) ^ 12 \<le> 2 ^ 60" by simp
  have S60: "0 + ?S \<le> 2 ^ 60" using S_le big by simp
  have K_le: "?K \<le> 6000" using assms(2) by simp
  have K40: "0 + ?K \<le> 2 ^ 40"
  proof -
    have "0 + ?K \<le> (6000::nat)" using K_le by simp
    also have "\<dots> \<le> 2 ^ 40" by simp
    finally show ?thesis .
  qed
  obtain acc bd where loop: "capacity_loop devs (PInt 0, []) = Inr (acc, bd)"
    and acc: "approx (0 + ?K) (0 + ?S) acc"
    using capacity_loop_close [OF assms(1) _ _ _ S60 K40, of "PInt 0" "[]"]
    by (auto simp: close_to_refl)
  have gS: "?S = 0 \<or> 1 / 20 \<le> ?S" using assms(1) by (rule exact_sum_grid)
  have rS: "in_range ?S" using gS S60 by (intro grid_in_range) simp_all
  have r13: "in_range (13 / 10)" by (simp add: in_range_def)
  have gT: "?T = 0 \<or> 1 / 20 \<le> ?T" using gS S0 by (auto simp: T)
  have T0: "0 \<le> ?T" using S0 by (simp add: T)
  have rT: "in_range ?T" using gT assms(3) big by (intro grid_in_range) simp_all
  have rT': "in_range (?S * (13 / 10))" using rT by (simp add: T)
  have K1: "?K \<le> 2 ^ 40" using K40 by simp
  obtain z where z: "py_mul acc (float_lit (13 / 10)) = Inr z" "approx (?K + 1 + 3) ?T z"
    using py_mul_close [OF _ float_lit_13_close rS r13 rT' K1, of acc] acc
    by (auto simp: T)
  have rq: "in_range (?T / 150)"
    using gT rT by (auto simp: in_range_def)
  have "Suc (?K + 1 + 3) \<le> 6005" using K_le by simp
  also have "\<dots> \<le> (2::nat) ^ 50" by simp
  finally have K5: "Suc (?K + 1 + 3) \<le> 2 ^ 50" .
  obtain q where q: "py_truediv z (PInt 150) = Inr (PFloat (Fin q))"
      "close_to (?K + 1 + 3 + 2) (?T / 150) q"
    using py_truediv_150_close [OF z(2) rT rq K5] by blast
  have "calculate_capacity_requirements n devs =
      Inr \<lparr>total_devices = n, device_breakdown = bd,
           total_bandwidth_required = round2 z, aps_for_capacity = \<lceil>q\<rceil>\<rparr>"
    by (simp add: calculate_capacity_requirements_def ebind_def loop z(1) q(1)
        del: py_truediv.simps py_mul.simps)
  moreover have "?K + 1 + 3 + 2 = 6 * length devs + 6" by simp
  then have "close_to (6 * length devs + 6) (?T / 150) q" using q(2) by (simp only:)
  moreover have "?K + 1 + 3 = 6 * length devs + 4" by simp
  then have "approx (6 * length devs + 4) ?T z" using z(2) by (simp only:)
  ultimately show ?thesis by auto
qed

lemma ceiling_near:
  fixes q x :: rat
  assumes "0 \<le> q" "q \<le> 2 ^ 39"
    and "q * (1 - 1 / 2 ^ 39) \<le> x" "x \<le> q * (1 + 1 / 2 ^ 39)"
  shows "\<lceil>q * (1 - 1 / 2 ^ 39)\<rceil> \<le> \<lceil>x\<rceil>" "\<lceil>x\<rceil> \<le> \<lceil>q * (1 + 1 / 2 ^ 39)\<rceil>"
    "\<bar>\<lceil>x\<rceil> - \<lceil>q\<rceil>\<bar> \<le> 1"
proof -
  show lo: "\<lceil>q * (1 - 1 / 2 ^ 39)\<rceil> \<le> \<lceil>x\<rceil>" using assms(3) by (rule ceiling_mono)
  show hi: "\<lceil>x\<rceil> \<le> \<lceil>q * (1 + 1 / 2 ^ 39)\<rceil>" using assms(4) by (rule ceiling_mono)
  have e: "q * (1 / 2 ^ 39) \<le> 1" using assms(1,2) by (simp add: field_simps)
  have "q - 1 \<le> q * (1 - 1 / 2 ^ 39)" using e by (simp add: algebra_simps)
  then have "\<lceil>q - 1\<rceil> \<le> \<lceil>q * (1 - 1 / 2 ^ 39)\<rceil>" by (rule ceiling_mono)
  then have l: "\<lceil>q\<rceil> - 1 \<le> \<lceil>x\<rceil>" using lo by simp
  have "q * (1 + 1 / 2 ^ 39) \<le> q + 1" using e by (simp add: algebra_simps)
  then have "\<lceil>q * (1 + 1 / 2 ^ 39)\<rceil> \<le> \<lceil>q + 1\<rceil>" by (rule ceiling_mono)
  then have h: "\<lceil>x\<rceil> \<le> \<lceil>q\<rceil> + 1" using hi by simp
  show "\<bar>\<lceil>x\<rceil> - \<lceil>q\<rceil>\<bar> \<le> 1" using l h by simp
qed

lemma close_to_coarse:
  assumes "close_to k a x" "0 \<le> a" "k \<le> 8192"
  shows "a * (1 - 1 / 2 ^ 39) \<le> x" "x \<le> a * (1 + 1 / 2 ^ 39)"
proof -
  have "(of_nat k :: rat) \<le> of_nat 8192" using assms(3) by (simp only: of_nat_le_iff)
  then have k: "(of_nat k :: rat) \<le> 8192" by simp
  then have u: "2 * of_nat k * unit_roundoff \<le> 1 / 2 ^ 39"
    by (simp add: unit_roundoff_def field_simps)
  have u1: "2 * of_nat k * unit_roundoff \<le> 1"
    using u by simp
  have u2: "of_nat k * unit_roundoff \<le> 1 / 2 ^ 39"
    using k by (simp add: unit_roundoff_def field_simps)
  have "a * (1 - 1 / 2 ^ 39) \<le> a * (1 - of_nat k * unit_roundoff)"
    using assms(2) u2 by (intro mult_left_mono) simp_all
  also have "\<dots> \<le> x" using close_to_bounds(1) [OF assms(1,2) u1] .
  finally show "a * (1 - 1 / 2 ^ 39) \<le> x" .
  have "x \<le> a * (1 + 2 * of_nat k * unit_roundoff)"
    using close_to_bounds(2) [OF assms(1,2) u1] .
  also have "\<dots> \<le> a * (1 + 1 / 2 ^ 39)"
    using assms(2) u by (intro mult_left_mono) simp_all
  finally show "x \<le> a * (1 + 1 / 2 ^ 39)" .
qed

lemma unknown_label_weight:
  "label \<notin> fst ` set bandwidth_per_device \<Longrightarrow>
     dict_get bandwidth_per_device label (PInt 1) = PInt 1 \<and> exact_weight label = 1"
proof -
  assume a: "label \<notin> fst ` set bandwidth_per_device"
  have 1: "dict_get bandwidth_per_device label (PInt 1) = PInt 1"
    using a by (simp add: dict_get_def map_of_eq_None_iff [THEN iffD2])
  have "label \<notin> {''handheld_scanner'', ''tablet'', ''laptop'', ''voice_device'',
      ''iot_sensor'', ''mobile_robot''}"
    using a by (simp add: bandwidth_per_device_def)
  then have "exact_weight label = 1"
    by (simp add: exact_weight_def dict_get_def)
  with 1 show ?thesis by simp
qed

lemma exact_example:
  "exact_total_bandwidth example_device_types = 50375 / 100"
  "exact_ap_count example_device_types = 4"
  by code_simp+

lemma drone_example:
  "calculate_capacity_requirements 3 [(''drone'', 3)] =
       Inr \<lparr>total_devices = 3,
            device_breakdown =
              [(''drone'', \<lparr>bd_count = 3, bd_bandwidth_per_device = PInt 1,
                 bd_total_bandwidth = PInt 3\<rparr>)],
            total_bandwidth_required = float_lit (39 / 10),
            aps_for_capacity = 1\<rparr>"
  by code_simp

text \<open>
  The breakdown: over a mix with distinct labels (the keys of a dictionary) the loop
  appends one entry per type, in order, holding the count, the weight looked up and their
  product as the code computes it.
\<close>

lemma type_bandwidth_close:
  assumes "0 \<le> c" "exact_weight t * of_int c \<le> 2 ^ 60"
  shows "\<exists>z. py_mul (dict_get bandwidth_per_device t (PInt 1)) (PInt c) = Inr z
           \<and> approx 4 (exact_weight t * of_int c) z"
proof -
  note rb = bandwidth_in_range [OF assms]
  have "approx 0 (of_int c) (PInt c)" by (simp add: close_to_refl)
  then obtain z where z: "py_mul (dict_get bandwidth_per_device t (PInt 1)) (PInt c) = Inr z"
      "approx (1 + 0 + 3) (exact_weight t * of_int c) z"
    using py_mul_close [OF weight_close _ rb(1,2,3), of 0 "PInt c"] by auto
  have "1 + 0 + 3 = (4::nat)" by simp
  then have "approx 4 (exact_weight t * of_int c) z" using z(2) by (simp only:)
  with z(1) show ?thesis by blast
qed

lemma dict_set_fresh: "k \<notin> fst ` set d \<Longrightarrow> dict_set d k v = d @ [(k, v)]"
  by (induction d) auto

lemma exact_term_le_sum:
  "\<forall>d\<in>set devs. 0 \<le> snd d \<Longrightarrow> d \<in> set devs \<Longrightarrow>
     exact_weight (fst d) * of_int (snd d) \<le> exact_sum devs"
proof (induction devs)
  case Nil
  then show ?case by simp
next
  case (Cons e devs)
  have s0: "0 \<le> exact_sum devs" using Cons.prems(1) by (intro exact_sum_nonneg) simp
  have e0: "0 \<le> exact_weight (fst e) * of_int (snd e)"
    using Cons.prems(1) exact_weight_bounds(1) [of "fst e"]
    by (intro mult_nonneg_nonneg) (simp_all add: order_trans [of 0 "1 / 20"])
  show ?case
  proof (cases "d = e")
    case True
    then show ?thesis using s0 by (simp add: exact_sum_Cons)
  next
    case False
    then have "exact_weight (fst d) * of_int (snd d) \<le> exact_sum devs"
      using Cons by simp
    then show ?thesis using e0 by (simp add: exact_sum_Cons)
  qed
qed

lemma capacity_loop_breakdown:
  assumes "capacity_loop devs (acc, bd) = Inr (acc', bd')"
    and "distinct (map fst devs)" "fst ` set devs \<inter> fst ` set bd = {}"
  shows "\<exists>bs. bd' = bd @ bs
           \<and> list_all2 (\<lambda>d e. fst e = fst d \<and> bd_count (snd e) = snd d
                \<and> bd_bandwidth_per_device (snd e) = dict_get bandwidth_per_device (fst d) (PInt 1)
                \<and> py_mul (dict_get bandwidth_per_device (fst d) (PInt 1)) (PInt (snd d))
                    = Inr (bd_total_bandwidth (snd e))) devs bs"
  using assms
proof (induction devs arbitrary: acc bd)
  case Nil
  then show ?case by simp
next
  case (Cons d devs)
  let ?e = "\<lambda>z. \<lparr>bd_count = snd d,
            bd_bandwidth_per_device = dict_get bandwidth_per_device (fst d) (PInt 1),
            bd_total_bandwidth = z\<rparr>"
  obtain z acc1 where z: "py_mul (dict_get bandwidth_per_device (fst d) (PInt 1)) (PInt (snd d)) = Inr z"
    and step: "capacity_loop devs (acc1, dict_set bd (fst d) (?e z)) = Inr (acc', bd')"
    using Cons.prems(1)
    by (auto simp add: Let_def ebind_def split: sum.splits simp del: py_mul.simps py_add.simps)
  have fresh: "fst d \<notin> fst ` set bd" using Cons.prems(3) by auto
  have set: "dict_set bd (fst d) (?e z) = bd @ [(fst d, ?e z)]"
    using fresh by (rule dict_set_fresh)
  have dis: "distinct (map fst devs)" using Cons.prems(2) by simp
  have disj: "fst ` set devs \<inter> fst ` set (bd @ [(fst d, ?e z)]) = {}"
    using Cons.prems(2,3) by auto
  obtain bs where bs: "bd' = (bd @ [(fst d, ?e z)]) @ bs"
    "list_all2 (\<lambda>d e. fst e = fst d \<and> bd_count (snd e) = snd d
                \<and> bd_bandwidth_per_device (snd e) = dict_get bandwidth_per_device (fst d) (PInt 1)
                \<and> py_mul (dict_get bandwidth_per_device (fst d) (PInt 1)) (PInt (snd d))
                    = Inr (bd_total_bandwidth (snd e))) devs bs"
    using Cons.IH [OF step [unfolded set] dis disj] by blast
  show ?case
    by (rule exI [of _ "(fst d, ?e z) # bs"]) (simp add: bs z)
qed

lemma capacity_breakdown_loop:
  "calculate_capacity_requirements n devs = Inr r \<Longrightarrow>
     \<exists>acc. capacity_loop devs (PInt 0, []) = Inr (acc, device_breakdown r)"
  unfolding calculate_capacity_requirements_def
  by (auto simp add: ebind_def split: sum.splits
      simp del: py_truediv.simps math_ceil.simps py_mul.simps)

lemma breakdown_close:
  assumes "calculate_capacity_requirements n devs = Inr r"
    and "\<forall>d\<in>set devs. 0 \<le> snd d" "exact_sum devs \<le> 2 ^ 60" "distinct (map fst devs)"
  shows "list_all2 (\<lambda>d e. fst e = fst d \<and> bd_count (snd e) = snd d
            \<and> bd_bandwidth_per_device (snd e) = dict_get bandwidth_per_device (fst d) (PInt 1)
            \<and> approx 4 (exact_weight (fst d) * of_int (snd d)) (bd_total_bandwidth (snd e)))
          devs (device_breakdown r)"
proof -
  obtain acc where "capacity_loop devs (PInt 0, []) = Inr (acc, device_breakdown r)"
    using capacity_breakdown_loop [OF assms(1)] by blast
  then have l: "list_all2 (\<lambda>d e. fst e = fst d \<and> bd_count (snd e) = snd d
                \<and> bd_bandwidth_per_device (snd e) = dict_get bandwidth_per_device (fst d) (PInt 1)
                \<and> py_mul (dict_get bandwidth_per_device (fst d) (PInt 1)) (PInt (snd d))
                    = Inr (bd_total_bandwidth (snd e))) devs (device_breakdown r)"
    using capacity_loop_breakdown [of devs "PInt 0" "[]" acc "device_breakdown r"] assms(4)
    by auto
  show ?thesis
    using l
  proof (rule list.rel_mono_strong)
    fix d e
    assume d: "d \<in> set devs"
      and p: "fst e = fst d \<and> bd_count (snd e) = snd d
                \<and> bd_bandwidth_per_device (snd e) = dict_get bandwidth_per_device (fst d) (PInt 1)
                \<and> py_mul (dict_get bandwidth_per_device (fst d) (PInt 1)) (PInt (snd d))
                    = Inr (bd_total_bandwidth (snd e))"
    have c0: "0 \<le> snd d" using assms(2) d by simp
    have "exact_weight (fst d) * of_int (snd d) \<le> exact_sum devs"
      using assms(2) d by (rule exact_term_le_sum)
    then have le: "exact_weight (fst d) * of_int (snd d) \<le> 2 ^ 60"
      using assms(3) by linarith
    obtain z where z: "py_mul (dict_get bandwidth_per_device (fst d) (PInt 1)) (PInt (snd d)) = Inr z"
      "approx 4 (exact_weight (fst d) * of_int (snd d)) z"
      using type_bandwidth_close [OF c0 le] by blast
    have "bd_total_bandwidth (snd e) = z" using p z(1) by simp
    then show "fst e = fst d \<and> bd_count (snd e) = snd d
            \<and> bd_bandwidth_per_device (snd e) = dict_get bandwidth_per_device (fst d) (PInt 1)
            \<and> approx 4 (exact_weight (fst d) * of_int (snd d)) (bd_total_bandwidth (snd e))"
      using p z(2) by simp
  qed
qed

text \<open>
  C4, the exact formula. The count of the code is not always the ceiling of the exact
  total over 150: for 183861 voice devices, 80878 sensors and 6140 scanners, in this
  order, the exact total is 33150 Mbps, which is 221 access points of 150 Mbps, and the
  code, whose float sum is a little above, answers 222.
\<close>

theorem capacity_requirements_inexact_mix:
  "map_sum id aps_for_capacity
     (calculate_capacity_requirements 270879
        [(''voice_device'', 183861), (''iot_sensor'', 80878), (''handheld_scanner'', 6140)])
     = Inr 222
   \<and> exact_total_bandwidth
        [(''voice_device'', 183861), (''iot_sensor'', 80878), (''handheld_scanner'', 6140)]
     = 33150
   \<and> exact_ap_count
        [(''voice_device'', 183861), (''iot_sensor'', 80878), (''handheld_scanner'', 6140)]
     = 221"
  by code_simp

text \<open>
  C4. For every device mix of at most 1000 types with counts that are not negative and an
  exact total of at most \<open>10 ^ 12\<close> Mbps, \<open>calculate_capacity_requirements\<close> returns; when
  the labels are distinct its breakdown lists the types in order, each with its count, the
  weight looked up (1 by default) and a bandwidth within 4 roundings of the exact weight
  times the count; the total bandwidth it reports is the two-decimal rounding of a float within \<open>6 n + 4\<close> roundings
  of the exact total (1.3 times the sum over the types of weight times count), and its
  access-point count lies between the ceilings of the exact quotient by 150 scaled by
  \<open>1 - 2 ^ - 39\<close> and by \<open>1 + 2 ^ - 39\<close>, so that it differs from the ceiling of the exact
  quotient by at most one. A label that is not in the table is accepted with the weight 1.
  For the example mix the exact total is 503.75 Mbps and the exact count 4, and the code
  reports 503.75 and 4; a mix of three devices of the unknown type \<open>drone\<close> is accepted
  and needs one access point.
\<close>

theorem capacity_requirements_near_exact:
  "((\<forall>d\<in>set devs. 0 \<le> snd d) \<and> length devs \<le> 1000
      \<and> exact_total_bandwidth devs \<le> 10 ^ 12 \<longrightarrow>
     (\<exists>r z. calculate_capacity_requirements n devs = Inr r \<and> total_devices r = n
        \<and> (distinct (map fst devs) \<longrightarrow>
             list_all2 (\<lambda>d e. fst e = fst d \<and> bd_count (snd e) = snd d
                 \<and> bd_bandwidth_per_device (snd e) =
                     dict_get bandwidth_per_device (fst d) (PInt 1)
                 \<and> approx 4 (exact_weight (fst d) * of_int (snd d))
                     (bd_total_bandwidth (snd e)))
               devs (device_breakdown r))
        \<and> total_bandwidth_required r = round2 z
        \<and> approx (6 * length devs + 4) (exact_total_bandwidth devs) z
        \<and> \<lceil>exact_total_bandwidth devs / 150 * (1 - 1 / 2 ^ 39)\<rceil> \<le> aps_for_capacity r
        \<and> aps_for_capacity r \<le> \<lceil>exact_total_bandwidth devs / 150 * (1 + 1 / 2 ^ 39)\<rceil>
        \<and> \<bar>aps_for_capacity r - exact_ap_count devs\<bar> \<le> 1))
   \<and> (label \<notin> fst ` set bandwidth_per_device \<longrightarrow>
        dict_get bandwidth_per_device label (PInt 1) = PInt 1 \<and> exact_weight label = 1)
   \<and> exact_total_bandwidth example_device_types = 50375 / 100
   \<and> exact_ap_count example_device_types = 4
   \<and> map_sum id (\<lambda>r. (total_bandwidth_required r, aps_for_capacity r))
        (calculate_capacity_requirements 500 example_device_types) =
       Inr (PFloat (Fin (50375 / 100)), 4)
   \<and> calculate_capacity_requirements 3 [(''drone'', 3)] =
       Inr \<lparr>total_devices = 3,
            device_breakdown =
              [(''drone'', \<lparr>bd_count = 3, bd_bandwidth_per_device = PInt 1,
                 bd_total_bandwidth = PInt 3\<rparr>)],
            total_bandwidth_required = float_lit (39 / 10),
            aps_for_capacity = 1\<rparr>"
proof -
  have general: "\<exists>r z. calculate_capacity_requirements n devs = Inr r \<and> total_devices r = n
        \<and> (distinct (map fst devs) \<longrightarrow>
             list_all2 (\<lambda>d e. fst e = fst d \<and> bd_count (snd e) = snd d
                 \<and> bd_bandwidth_per_device (snd e) =
                     dict_get bandwidth_per_device (fst d) (PInt 1)
                 \<and> approx 4 (exact_weight (fst d) * of_int (snd d))
                     (bd_total_bandwidth (snd e)))
               devs (device_breakdown r))
        \<and> total_bandwidth_required r = round2 z
        \<and> approx (6 * length devs + 4) (exact_total_bandwidth devs) z
        \<and> \<lceil>exact_total_bandwidth devs / 150 * (1 - 1 / 2 ^ 39)\<rceil> \<le> aps_for_capacity r
        \<and> aps_for_capacity r \<le> \<lceil>exact_total_bandwidth devs / 150 * (1 + 1 / 2 ^ 39)\<rceil>
        \<and> \<bar>aps_for_capacity r - exact_ap_count devs\<bar> \<le> 1"
    if h: "(\<forall>d\<in>set devs. 0 \<le> snd d) \<and> length devs \<le> 1000
      \<and> exact_total_bandwidth devs \<le> 10 ^ 12"
  proof -
    let ?q = "exact_total_bandwidth devs / 150"
    from h have nonneg: "\<forall>d\<in>set devs. 0 \<le> snd d" and len: "length devs \<le> 1000"
      and le: "exact_total_bandwidth devs \<le> 10 ^ 12" by simp_all
    obtain r z q where r: "calculate_capacity_requirements n devs = Inr r" "total_devices r = n"
      "total_bandwidth_required r = round2 z"
      "approx (6 * length devs + 4) (exact_total_bandwidth devs) z"
      "aps_for_capacity r = \<lceil>q\<rceil>" "close_to (6 * length devs + 6) ?q q"
      using capacity_estimate_close [OF nonneg len le, of n] by blast
    have s0: "0 \<le> exact_sum devs" using nonneg by (rule exact_sum_nonneg)
    then have q0: "0 \<le> ?q" by (simp add: exact_total_bandwidth_def)
    have "?q \<le> 10 ^ 12 / 150" using le by simp
    also have "\<dots> \<le> (2::rat) ^ 39" by simp
    finally have q39: "?q \<le> 2 ^ 39" .
    have k: "6 * length devs + 6 \<le> 8192" using len by simp
    note b = close_to_coarse [OF r(6) q0 k]
    note c = ceiling_near [OF q0 q39 b]
    have "exact_sum devs \<le> exact_sum devs * (13 / 10)" using s0 by simp
    then have "exact_sum devs \<le> 10 ^ 12" using le by (simp add: exact_total_bandwidth_def)
    moreover have "(10::rat) ^ 12 \<le> 2 ^ 60" by simp
    ultimately have s60: "exact_sum devs \<le> 2 ^ 60" by linarith
    have bdn: "distinct (map fst devs) \<longrightarrow>
             list_all2 (\<lambda>d e. fst e = fst d \<and> bd_count (snd e) = snd d
                 \<and> bd_bandwidth_per_device (snd e) =
                     dict_get bandwidth_per_device (fst d) (PInt 1)
                 \<and> approx 4 (exact_weight (fst d) * of_int (snd d))
                     (bd_total_bandwidth (snd e)))
               devs (device_breakdown r)"
      using breakdown_close [OF r(1) nonneg s60] by blast
    have aps: "\<lceil>?q * (1 - 1 / 2 ^ 39)\<rceil> \<le> aps_for_capacity r"
        "aps_for_capacity r \<le> \<lceil>?q * (1 + 1 / 2 ^ 39)\<rceil>"
        "\<bar>aps_for_capacity r - exact_ap_count devs\<bar> \<le> 1"
      using c by (simp_all add: r(5) exact_ap_count_def)
    show ?thesis
      using r(1-4) bdn aps by blast
  qed
  have ex: "map_sum id (\<lambda>r. (total_bandwidth_required r, aps_for_capacity r))
        (calculate_capacity_requirements 500 example_device_types) =
       Inr (PFloat (Fin (50375 / 100)), 4)"
    by (simp add: capacity_example)
  show ?thesis
    using general unknown_label_weight [of label] exact_example ex drone_example
    by (intro conjI impI) simp_all
qed

theorem capacity_requirements_near_exact_witness:
  "\<exists>r. calculate_capacity_requirements 270879
        [(''voice_device'', 183861), (''iot_sensor'', 80878), (''handheld_scanner'', 6140)]
       = Inr r
     \<and> total_devices r = 270879
     \<and> length (device_breakdown r) = 3
     \<and> \<bar>aps_for_capacity r - exact_ap_count
          [(''voice_device'', 183861), (''iot_sensor'', 80878), (''handheld_scanner'', 6140)]\<bar>
        \<le> 1"
proof -
  let ?mix = "[(''voice_device'', 183861 :: int), (''iot_sensor'', 80878),
      (''handheld_scanner'', 6140)]"
  have t: "exact_total_bandwidth ?mix = 33150" by code_simp
  have h: "(\<forall>d\<in>set ?mix. 0 \<le> snd d) \<and> length ?mix \<le> 1000
      \<and> exact_total_bandwidth ?mix \<le> 10 ^ 12"
    by (simp add: t)
  have dis: "distinct (map fst ?mix)" by simp
  obtain r where r: "calculate_capacity_requirements 270879 ?mix = Inr r"
      "total_devices r = 270879"
      "list_all2 (\<lambda>d e. fst e = fst d \<and> bd_count (snd e) = snd d
           \<and> bd_bandwidth_per_device (snd e) = dict_get bandwidth_per_device (fst d) (PInt 1)
           \<and> approx 4 (exact_weight (fst d) * of_int (snd d)) (bd_total_bandwidth (snd e)))
         ?mix (device_breakdown r)"
      "\<bar>aps_for_capacity r - exact_ap_count ?mix\<bar> \<le> 1"
    using capacity_requirements_near_exact [of ?mix 270879] h dis by blast
  have "length (device_breakdown r) = 3"
    using list_all2_lengthD [OF r(3)] by simp
  with r(1,2,4) show ?thesis by blast
qed

section \<open>Properties of the interference sampling\<close>

lemma randbelow_less: "0 < n \<Longrightarrow> fst (randbelow n g) < n"
  by (simp add: randbelow_def)

lemma sample_loop_inv:
  "k \<le> n \<Longrightarrow> length pool = n \<Longrightarrow> i \<le> k \<Longrightarrow> m = k - i \<Longrightarrow>
   mset result + mset (take (n - i) pool) = M \<Longrightarrow>
   length (fst (sample_loop n [i..<k] pool result g)) = length result + m
   \<and> mset (fst (sample_loop n [i..<k] pool result g)) \<subseteq># M"
proof (induction m arbitrary: i pool result g)
  case 0
  then have "mset result \<subseteq># M" by (metis mset_subset_eq_add_left)
  with 0 show ?case by simp
next
  case (Suc m)
  then have ik: "i < k" by simp
  define j where "j = fst (randbelow (n - i) g)"
  define g' where "g' = snd (randbelow (n - i) g)"
  define pool' where "pool' = pool[j := pool ! (n - i - 1)]"
  have jlt: "j < n - i"
    unfolding j_def using ik Suc.prems(1) by (intro randbelow_less) simp
  have step: "sample_loop n [i..<k] pool result g =
      sample_loop n [Suc i..<k] pool' (result @ [pool ! j]) g'"
    using ik by (simp add: upt_conv_Cons Let_def j_def g'_def pool'_def)
  have lt: "n - i - 1 < length pool"
    using ik Suc.prems(1,2) by simp
  have s: "n - i = Suc (n - i - 1)"
    using ik Suc.prems(1) by simp
  have "take (n - i) pool = take (Suc (n - i - 1)) pool"
    by (rule arg_cong [where f = "\<lambda>c. take c pool"]) (rule s)
  also have "\<dots> = take (n - i - 1) pool @ [pool ! (n - i - 1)]"
    using lt by (rule take_Suc_conv_app_nth)
  finally have tk: "take (n - i) pool = take (n - i - 1) pool @ [pool ! (n - i - 1)]" .
  have "mset (take (n - Suc i) pool') + {#pool ! j#} = mset (take (n - i) pool)"
  proof (cases "j = n - i - 1")
    case True
    then show ?thesis by (simp add: pool'_def tk)
  next
    case False
    with jlt have jl: "j < n - i - 1" by simp
    then have "take (n - Suc i) pool' = (take (n - i - 1) pool)[j := pool ! (n - i - 1)]"
      by (simp add: pool'_def take_update_swap)
    moreover have jlen: "j < length (take (n - i - 1) pool)"
      using jl Suc.prems(2) by simp
    moreover have "take (n - i - 1) pool ! j \<in> set (take (n - i - 1) pool)"
      using jlen by (rule nth_mem)
    then have "pool ! j \<in># mset (take (n - i - 1) pool)"
      using jl by simp
    ultimately show ?thesis
      using jl by (simp add: tk mset_update)
  qed
  then have "mset result + (mset (take (n - Suc i) pool') + {#pool ! j#}) = M"
    using Suc.prems(5) by simp
  then have inv: "mset (result @ [pool ! j]) + mset (take (n - Suc i) pool') = M"
    by simp
  have "length (fst (sample_loop n [Suc i..<k] pool' (result @ [pool ! j]) g'))
          = length (result @ [pool ! j]) + m
        \<and> mset (fst (sample_loop n [Suc i..<k] pool' (result @ [pool ! j]) g')) \<subseteq># M"
    using Suc.prems ik by (intro Suc.IH inv) (simp_all add: pool'_def)
  then show ?case by (simp add: step)
qed


lemma sample_without_replacement:
  assumes "0 \<le> k" "k \<le> int (length population)"
  shows "\<exists>res g'. sample population k g = (Inr res, g')
           \<and> length res = nat k \<and> mset res \<subseteq># mset population"
proof -
  have "length (fst (sample_loop (length population) [0..<nat k] population [] g))
          = length ([] :: 'a list) + nat k
      \<and> mset (fst (sample_loop (length population) [0..<nat k] population [] g))
          \<subseteq># mset population"
    using assms by (intro sample_loop_inv) simp_all
  with assms show ?thesis
    by (simp add: sample_def Let_def)
qed

lemma randint_2_4: "\<exists>k g'. randint 2 4 g = (Inr k, g') \<and> 2 \<le> k \<and> k \<le> 4"
proof -
  have "fst (randbelow 3 g) < 3" by (rule randbelow_less) simp
  then show ?thesis by (simp add: randint_def Let_def)
qed

lemma distinct_sublist_mset:
  assumes "mset xs \<subseteq># mset ys" "distinct ys"
  shows "distinct xs"
proof -
  obtain C where "mset ys = mset xs + C"
    using assms(1) by (auto simp: mset_subset_eq_exists_conv)
  moreover obtain zs where "mset zs = C"
    using ex_mset by blast
  ultimately have "mset ys = mset (xs @ zs)" by simp
  then have "distinct (xs @ zs)"
    using assms(2) by (metis mset_eq_imp_distinct_iff)
  then show ?thesis by simp
qed

lemma distinct_interference_sources: "distinct interference_sources"
  by (simp add: interference_sources_def)

lemma detect_interference_sources_char:
  "\<exists>d g'. detect_interference_sources g = (Inr d, g')
      \<and> 2 \<le> length d \<and> length d \<le> 4
      \<and> set d \<subseteq> set interference_sources \<and> distinct d"
proof -
  obtain k g1 where k: "randint 2 4 g = (Inr k, g1)" "2 \<le> k" "k \<le> 4"
    using randint_2_4 by blast
  have len: "length interference_sources = 5"
    by (simp add: interference_sources_def)
  obtain d g2 where d: "sample interference_sources k g1 = (Inr d, g2)"
    "length d = nat k" "mset d \<subseteq># mset interference_sources"
    using sample_without_replacement [of k interference_sources g1] k len by auto
  have "set d \<subseteq> set interference_sources"
    using d(3) by (metis set_mset_mono set_mset_mset)
  moreover have "distinct d"
    using d(3) distinct_interference_sources by (rule distinct_sublist_mset)
  moreover have "detect_interference_sources g = (Inr d, g2)"
    by (simp add: detect_interference_sources_def k(1) d(1))
  moreover have "2 \<le> length d" "length d \<le> 4"
    using d(2) k(2,3) by simp_all
  ultimately show ?thesis by blast
qed

lemma detect_interference_sources_draws:
  "fst (detect_interference_sources (sconst 0)) =
     Inr [interference_sources ! 0, interference_sources ! 4]"
  "fst (detect_interference_sources (sconst 1)) =
     Inr [interference_sources ! 1, interference_sources ! 4, interference_sources ! 3]"
  by (simp_all add: detect_interference_sources_def randint_def randbelow_def sample_def
        Let_def interference_sources_def upt_conv_Cons)

text \<open>
  C7. Whatever the random source yields, \<open>detect_interference_sources\<close> returns between
  2 and 4 entries, all of them entries of the catalog of 5, and no entry twice. With a
  source that always draws 0 it returns the first and the last entry of the catalog.
\<close>

theorem detect_interference_sources_sample:
  "(\<exists>d g'. detect_interference_sources g = (Inr d, g')
      \<and> 2 \<le> length d \<and> length d \<le> 4
      \<and> set d \<subseteq> set interference_sources \<and> distinct d)
   \<and> length interference_sources = 5
   \<and> fst (detect_interference_sources (sconst 0)) =
       Inr [interference_sources ! 0, interference_sources ! 4]"
proof -
  have "length interference_sources = 5"
    by (simp add: interference_sources_def)
  then show ?thesis
    using detect_interference_sources_char [of g] detect_interference_sources_draws(1)
    by blast
qed

section \<open>Properties of the optimization report\<close>

lemma report_parts:
  assumes "generate_optimization_report nm d di w = (Inr r, w')"
  shows "analyze_warehouse_layout (dim_width d) (dim_length d) (dim_height d)
           = Inr (layout_analysis r)"
    and "calculate_capacity_requirements (info_total_devices di) (info_device_types di)
           = Inr (capacity_analysis r)"
    and "recommended_aps (executive_summary r) =
           max (total_aps (layout_analysis r)) (aps_for_capacity (capacity_analysis r))"
  using assms
  by (auto simp: generate_optimization_report_def Let_def write_report_def print_line_def
      split: sum.splits prod.splits if_splits)

lemma report_outcome:
  assumes "analyze_warehouse_layout (dim_width d) (dim_length d) (dim_height d) = Inr la"
    and "calculate_capacity_requirements (info_total_devices di) (info_device_types di) = Inr cap"
    and "generate_channel_plan la True = Inr plan"
  shows "\<exists>r. fst (generate_optimization_report nm d di w) =
             (if files w report_file = Denied then Inl PermissionError
              else if json_dump_fails (int_max_str_digits w) r then Inl ValueError
              else Inr r)
           \<and> layout_analysis r = la \<and> capacity_analysis r = cap
           \<and> recommended_aps (executive_summary r) = max (total_aps la) (aps_for_capacity cap)
           \<and> channel_plan_summary r =
               \<lparr>plan_total_aps = int (length plan), channels_used = set (map channel plan),
                sample_assignments = take 5 plan\<rparr>"
proof -
  obtain found g' where found: "detect_interference_sources (rng w) = (Inr found, g')"
    using detect_interference_sources_char [of "rng w"] by blast
  let ?final = "max (total_aps la) (aps_for_capacity cap)"
  let ?r = "\<lparr>warehouse = nm,
             timestamp = shd (clock w),
             executive_summary =
               \<lparr>recommended_aps = ?final,
                primary_band = ''5 GHz'',
                secondary_band = ''2.4 GHz (IoT and legacy devices)'',
                estimated_coverage = ''99.9%''\<rparr>,
             layout_analysis = la,
             capacity_analysis = cap,
             channel_plan_summary =
               \<lparr>plan_total_aps = int (length plan),
                channels_used = set (map channel plan),
                sample_assignments = take 5 plan\<rparr>,
             interference_analysis = found,
             recommendations =
               [''Deploy '' @ str_int ?final @ '' access points in a grid pattern'',
                ''Use 5 GHz as primary band with DFS channels enabled'',
                ''Implement band steering to move capable devices to 5 GHz'',
                ''Configure 20 MHz channels for maximum capacity'',
                ''Set TX power to medium (14-17 dBm) for optimal coverage'',
                ''Enable 802.11k/v/r for seamless roaming'',
                ''Implement QoS with voice devices on highest priority'']\<rparr>"
  have "fst (generate_optimization_report nm d di w) =
             (if files w report_file = Denied then Inl PermissionError
              else if json_dump_fails (int_max_str_digits w) ?r then Inl ValueError
              else Inr ?r)"
    using assms found
    by (simp add: generate_optimization_report_def Let_def write_report_def print_line_def)
  then show ?thesis
    by (intro exI [of _ ?r]) simp
qed

lemma short_int_dumps: "digit_count n \<le> 640 \<Longrightarrow> \<not> repr_too_long limit n"
  by (simp add: repr_too_long_def)

lemma example_plan_ints:
  "case generate_channel_plan
          \<lparr>dimensions = \<lparr>dim_width = 200, dim_length = 300, dim_height = 12\<rparr>,
           coverage_radius = 25, grid_spacing = PFloat (Fin 35),
           ap_grid = \<lparr>grid_width = 6, grid_length = 9\<rparr>, total_aps = 54,
           vertical_consideration = ''High ceiling detected - consider downtilt antennas''\<rparr>
          True of
     Inl e \<Rightarrow> False
   | Inr plan \<Rightarrow>
       list_all (\<lambda>n. digit_count n \<le> 640)
         (int (length plan) # map channel plan @ concat (map ap_config_ints (take 5 plan)))"
  by code_simp

lemma example_report_ints:
  "list_all (\<lambda>n. digit_count n \<le> 640)
     (54 # layout_ints
          \<lparr>dimensions = \<lparr>dim_width = 200, dim_length = 300, dim_height = 12\<rparr>,
           coverage_radius = 25, grid_spacing = PFloat (Fin 35),
           ap_grid = \<lparr>grid_width = 6, grid_length = 9\<rparr>, total_aps = 54,
           vertical_consideration = ''High ceiling detected - consider downtilt antennas''\<rparr>
      @ (case calculate_capacity_requirements 500 example_device_types of
           Inl e \<Rightarrow> [] | Inr cap \<Rightarrow> capacity_ints cap))"
  by code_simp


lemma capacity_example_devices:
  "calculate_capacity_requirements (info_total_devices example_devices)
     (info_device_types example_devices) =
     Inr \<lparr>total_devices = 500,
          device_breakdown =
            [(''handheld_scanner'',
              \<lparr>bd_count = 200, bd_bandwidth_per_device = float_lit (5 / 10),
                bd_total_bandwidth = PFloat (Fin 100)\<rparr>),
             (''tablet'',
              \<lparr>bd_count = 50, bd_bandwidth_per_device = PInt 2,
                bd_total_bandwidth = PInt 100\<rparr>),
             (''laptop'',
              \<lparr>bd_count = 30, bd_bandwidth_per_device = PInt 5,
                bd_total_bandwidth = PInt 150\<rparr>),
             (''voice_device'',
              \<lparr>bd_count = 150, bd_bandwidth_per_device = float_lit (1 / 10),
                bd_total_bandwidth = PFloat (Fin 15)\<rparr>),
             (''iot_sensor'',
              \<lparr>bd_count = 50, bd_bandwidth_per_device = float_lit (5 / 100),
                bd_total_bandwidth = PFloat (Fin (5 / 2))\<rparr>),
             (''mobile_robot'',
              \<lparr>bd_count = 20, bd_bandwidth_per_device = PInt 1,
                bd_total_bandwidth = PInt 20\<rparr>)],
          total_bandwidth_required = PFloat (Fin (50375 / 100)),
          aps_for_capacity = 4\<rparr>"
  using capacity_example by (simp add: example_devices_def)

lemma short_ints_dump:
  "list_all (\<lambda>n. digit_count n \<le> 640) ns \<Longrightarrow> \<not> list_ex (repr_too_long limit) ns"
  by (auto simp: list_all_iff list_ex_iff repr_too_long_def)

lemma example_report_returns:
  assumes "files w report_file \<noteq> Denied"
  shows "\<exists>r w'. generate_optimization_report nm example_dimensions example_devices w = (Inr r, w')
           \<and> total_aps (layout_analysis r) = 54
           \<and> aps_for_capacity (capacity_analysis r) = 4
           \<and> recommended_aps (executive_summary r) = 54"
proof -
  let ?la = "\<lparr>dimensions = \<lparr>dim_width = 200, dim_length = 300, dim_height = 12\<rparr>,
           coverage_radius = 25, grid_spacing = PFloat (Fin 35),
           ap_grid = \<lparr>grid_width = 6, grid_length = 9\<rparr>, total_aps = 54,
           vertical_consideration = ''High ceiling detected - consider downtilt antennas''\<rparr>"
  obtain cap where cap: "calculate_capacity_requirements (info_total_devices example_devices)
       (info_device_types example_devices) = Inr cap" and aps: "aps_for_capacity cap = 4"
    using capacity_example_devices by simp
  have cap500: "calculate_capacity_requirements 500 example_device_types = Inr cap"
    using cap by (simp add: example_devices_def)
  obtain plan where plan: "generate_channel_plan ?la True = Inr plan"
    using generate_channel_plan_char [of ?la True] by blast
  obtain r where out: "fst (generate_optimization_report nm example_dimensions example_devices w) =
             (if files w report_file = Denied then Inl PermissionError
              else if json_dump_fails (int_max_str_digits w) r then Inl ValueError
              else Inr r)"
    and r: "layout_analysis r = ?la" "capacity_analysis r = cap"
      "recommended_aps (executive_summary r) = max (total_aps ?la) (aps_for_capacity cap)"
      "channel_plan_summary r =
               \<lparr>plan_total_aps = int (length plan), channels_used = set (map channel plan),
                sample_assignments = take 5 plan\<rparr>"
    using report_outcome [OF analyze_example_value cap plan, of nm w] by blast
  have p: "list_all (\<lambda>n. digit_count n \<le> 640)
         (int (length plan) # map channel plan @ concat (map ap_config_ints (take 5 plan)))"
    using example_plan_ints by (simp add: plan)
  have q: "list_all (\<lambda>n. digit_count n \<le> 640) (54 # layout_ints ?la @ capacity_ints cap)"
    using example_report_ints by (simp add: cap500)
  have "list_all (\<lambda>n. digit_count n \<le> 640) (report_ints r)"
    using p q by (simp add: report_ints_def r aps)
  then have 1: "\<not> list_ex (repr_too_long (int_max_str_digits w)) (report_ints r)"
    by (rule short_ints_dump)
  have "list_all (\<lambda>n. digit_count n \<le> 640) (map channel plan)"
    using p by simp
  then have 2: "\<not> (\<exists>n \<in> channels_used (channel_plan_summary r).
      repr_too_long (int_max_str_digits w) n)"
    by (auto simp: r list_all_iff repr_too_long_def)
  have "fst (generate_optimization_report nm example_dimensions example_devices w) = Inr r"
    using out assms 1 2 by (simp add: json_dump_fails_def)
  then have "generate_optimization_report nm example_dimensions example_devices w =
      (Inr r, snd (generate_optimization_report nm example_dimensions example_devices w))"
    by (metis prod.collapse)
  then show ?thesis
    using r aps by (intro exI [of _ r] exI) simp
qed

text \<open>
  The write does raise on a long int: a height of \<open>10 ^ k\<close> with \<open>k \<ge> 4300\<close> is copied
  into the report, and under the default limit of 4300 digits the run ends in
  \<open>ValueError\<close>.
\<close>

lemma length_str_nat_power10: "length (str_nat (10 ^ k)) = Suc k"
proof (induction k)
  case 0
  show ?case by simp
next
  case (Suc k)
  have "\<not> (10::nat) ^ Suc k < 10" by (simp add: not_less)
  then have "str_nat (10 ^ Suc k) = str_nat (10 ^ Suc k div 10) @ [''0123456789'' ! (10 ^ Suc k mod 10)]"
    by (subst str_nat.simps) (simp del: str_nat.simps power_Suc)
  then show ?case using Suc.IH by (simp del: str_nat.simps)
qed

lemma huge_int_too_long: "4300 \<le> k \<Longrightarrow> repr_too_long 4300 (10 ^ k)"
proof -
  assume k: "4300 \<le> k"
  have e: "nat \<bar>(10::int) ^ k\<bar> = 10 ^ k" by (simp add: nat_power_eq)
  have "digit_count (10 ^ k) = Suc k"
    by (simp only: digit_count_def e length_str_nat_power10)
  then show ?thesis
    using k by (simp add: repr_too_long_def)
qed


lemma analyze_example_any_height:
  "analyze_warehouse_layout 200 300 h =
     Inr \<lparr>dimensions = \<lparr>dim_width = 200, dim_length = 300, dim_height = h\<rparr>,
          coverage_radius = 25,
          grid_spacing = PFloat (Fin 35),
          ap_grid = \<lparr>grid_width = 6, grid_length = 9\<rparr>,
          total_aps = 54,
          vertical_consideration =
            (if 10 < h then ''High ceiling detected - consider downtilt antennas''
             else ''Standard ceiling height - omnidirectional antennas suitable'')\<rparr>"
proof -
  have "ebind (py_truediv (PInt 200) (PFloat (Fin 35))) math_ceil = Inr 6"
    "ebind (py_truediv (PInt 300) (PFloat (Fin 35))) math_ceil = Inr 9"
    by code_simp+
  then show ?thesis
    unfolding analyze_warehouse_layout_def Let_def grid_spacing_value
    by (simp add: ebind_def [of "Inr _"] del: py_truediv.simps)
qed

lemma report_huge_height_raises:
  assumes "files w report_file \<noteq> Denied" "int_max_str_digits w = 4300" "4300 \<le> k"
  shows "fst (generate_optimization_report nm
            \<lparr>dim_width = 200, dim_length = 300, dim_height = 10 ^ k\<rparr> example_devices w)
         = Inl ValueError"
proof -
  let ?d = "\<lparr>dim_width = 200, dim_length = 300, dim_height = 10 ^ k\<rparr>"
  let ?la = "\<lparr>dimensions = ?d, coverage_radius = 25, grid_spacing = PFloat (Fin 35),
          ap_grid = \<lparr>grid_width = 6, grid_length = 9\<rparr>, total_aps = 54,
          vertical_consideration =
            (if 10 < (10::int) ^ k then ''High ceiling detected - consider downtilt antennas''
             else ''Standard ceiling height - omnidirectional antennas suitable'')\<rparr>"
  have la: "analyze_warehouse_layout (dim_width ?d) (dim_length ?d) (dim_height ?d) = Inr ?la"
    using analyze_example_any_height [of "10 ^ k"] by simp
  obtain plan where plan: "generate_channel_plan ?la True = Inr plan"
    using generate_channel_plan_char [of ?la True] by blast
  obtain r where out: "fst (generate_optimization_report nm ?d example_devices w) =
             (if files w report_file = Denied then Inl PermissionError
              else if json_dump_fails (int_max_str_digits w) r then Inl ValueError
              else Inr r)"
    and r: "layout_analysis r = ?la"
    using report_outcome [OF la capacity_example_devices plan, of nm w] by blast
  have "10 ^ k \<in> set (report_ints r)"
    by (simp add: report_ints_def layout_ints_def r)
  then have "json_dump_fails 4300 r"
    using huge_int_too_long [OF assms(3)] by (auto simp: json_dump_fails_def list_ex_iff)
  then show ?thesis
    using out assms(1,2) by simp
qed

text \<open>
  The count that the report formats into its first recommendation is short. A float that
  is finite is below \<open>2 ^ 1024\<close> in magnitude, so each ceiling of a float quotient is at
  most \<open>2 ^ 1024\<close> and the larger of the two counts at most \<open>2 ^ 2048\<close>, a number of fewer
  than 640 digits, which the conversion to text never refuses.
\<close>

lemma fl_round_below: "fl_round x = Fin r \<Longrightarrow> \<bar>r\<bar> < pow2 1024"
proof -
  assume a: "fl_round x = Fin r"
  show ?thesis
  proof (cases "r = 0")
    case True
    then show ?thesis using pow2_pos [of 1024] by simp
  next
    case False
    then have x: "x \<noteq> 0" using a by (auto simp: fl_round_def)
    have "\<not> 1024 \<le> ilog2 \<bar>r\<bar>"
      using a x by (auto simp: fl_round_def Let_def split: if_splits)
    then have "ilog2 \<bar>r\<bar> + 1 \<le> 1024" by simp
    then have "pow2 (ilog2 \<bar>r\<bar> + 1) \<le> pow2 1024" by (rule pow2_mono)
    moreover have "\<bar>r\<bar> < pow2 (ilog2 \<bar>r\<bar> + 1)"
      using False by (intro ilog2_upper) simp
    ultimately show ?thesis by simp
  qed
qed

lemma float_div_below: "float_div f g = Fin r \<Longrightarrow> \<bar>r\<bar> < pow2 1024"
  using pow2_pos [of 1024]
  by (cases "(f, g)" rule: float_div.cases) (auto dest: fl_round_below split: if_splits)

lemma py_truediv_below:
  "py_truediv x y = Inr (PFloat (Fin r)) \<Longrightarrow> \<bar>r\<bar> < pow2 1024"
  by (cases "(x, y)" rule: py_truediv.cases)
    (auto simp: ebind_def dest: fl_round_below float_div_below
      split: if_splits pyfloat.splits sum.splits)

lemma py_truediv_float: "py_truediv x y = Inr p \<Longrightarrow> \<exists>f. p = PFloat f"
  by (cases "(x, y)" rule: py_truediv.cases)
    (auto simp: ebind_def split: if_splits pyfloat.splits sum.splits)

lemma ceil_float_below:
  assumes "py_truediv x y = Inr p" "math_ceil p = Inr k"
  shows "\<bar>k\<bar> \<le> 2 ^ 1024"
proof -
  define B :: int where "B = 2 ^ 1024"
  have B: "pow2 1024 = of_int B"
    unfolding B_def using pow2_nonneg_int [of 1024] by simp
  obtain f where f: "p = PFloat f" using py_truediv_float [OF assms(1)] by blast
  obtain r where r: "f = Fin r" "k = \<lceil>r\<rceil>"
    using assms(2) f by (cases f) auto
  have "\<bar>r\<bar> < pow2 1024" using assms(1) f r(1) by (intro py_truediv_below [of x y]) simp
  then have b: "\<bar>r\<bar> < of_int B" by (simp only: B)
  have u: "\<lceil>r\<rceil> \<le> B" using b by (simp add: ceiling_le_iff)
  have l: "- B \<le> \<lceil>r\<rceil>" using b by (simp add: le_ceiling_iff)
  have "\<bar>k\<bar> \<le> B" using u l r(2) by simp
  then show ?thesis by (simp only: B_def)
qed

lemma ceil_truediv_below:
  assumes "ebind (py_truediv x y) math_ceil = Inr k"
  shows "\<bar>k\<bar> \<le> 2 ^ 1024"
proof -
  obtain p where p: "py_truediv x y = Inr p" "math_ceil p = Inr k"
    using assms by (auto simp: ebind_def split: sum.splits)
  then show ?thesis by (rule ceil_float_below)
qed

lemma total_aps_below:
  assumes "analyze_warehouse_layout w l h = Inr la"
  shows "\<bar>total_aps la\<bar> \<le> 2 ^ 2048"
proof -
  obtain kw kl where k: "ebind (py_truediv (PInt w) (PFloat (Fin 35))) math_ceil = Inr kw"
      "ebind (py_truediv (PInt l) (PFloat (Fin 35))) math_ceil = Inr kl"
      "total_aps la = kw * kl"
    using assms unfolding analyze_warehouse_layout_def Let_def grid_spacing_value
    by (auto simp add: ebind_def split: sum.splits simp del: py_truediv.simps math_ceil.simps)
  have "\<bar>kw * kl\<bar> = \<bar>kw\<bar> * \<bar>kl\<bar>" by (rule abs_mult)
  also have "\<dots> \<le> 2 ^ 1024 * 2 ^ 1024"
    using ceil_truediv_below [OF k(1)] ceil_truediv_below [OF k(2)]
    by (intro mult_mono) simp_all
  also have "\<dots> = (2::int) ^ 2048" by (simp only: power_add [symmetric]) simp
  finally show ?thesis using k(3) by simp
qed

lemma aps_for_capacity_below:
  assumes "calculate_capacity_requirements n devs = Inr cap"
  shows "\<bar>aps_for_capacity cap\<bar> \<le> 2 ^ 1024"
proof -
  obtain z p where "py_truediv z (PInt 150) = Inr p" "math_ceil p = Inr (aps_for_capacity cap)"
    using assms unfolding calculate_capacity_requirements_def
    by (auto simp add: ebind_def split: sum.splits
        simp del: py_truediv.simps math_ceil.simps py_mul.simps)
  then show ?thesis by (rule ceil_float_below)
qed

lemma length_str_nat_le: "0 < k \<Longrightarrow> m < 10 ^ k \<Longrightarrow> length (str_nat m) \<le> k"
proof (induction k arbitrary: m)
  case 0
  then show ?case by simp
next
  case (Suc k)
  show ?case
  proof (cases "m < 10")
    case True
    then show ?thesis by simp
  next
    case False
    then have k: "0 < k" using Suc.prems(2) by (cases k) simp_all
    have "m div 10 < 10 ^ k" using Suc.prems(2) by (simp add: less_mult_imp_div_less mult.commute)
    then have "length (str_nat (m div 10)) \<le> k" using k by (rule Suc.IH [rotated])
    with False show ?thesis by (subst str_nat.simps) simp
  qed
qed

lemma power_2_2048: "(2::int) ^ 2048 < 10 ^ 640"
proof -
  have "(2::int) ^ 2048 = (2 ^ 16) ^ 128" by (simp only: power_mult [symmetric]) simp
  also have "\<dots> < (10 ^ 5) ^ 128" by (rule power_strict_mono) simp_all
  also have "\<dots> = (10::int) ^ 640" by (simp only: power_mult [symmetric]) simp
  finally show ?thesis .
qed

lemma digit_count_below: "\<bar>n\<bar> \<le> 2 ^ 2048 \<Longrightarrow> digit_count n \<le> 640"
proof -
  assume "\<bar>n\<bar> \<le> 2 ^ 2048"
  then have "\<bar>n\<bar> < 10 ^ 640" using power_2_2048 by linarith
  then have "nat \<bar>n\<bar> < nat (10 ^ 640)" by (simp only: nat_mono_iff)
  moreover have "nat ((10::int) ^ 640) = 10 ^ 640" by (simp add: nat_power_eq)
  ultimately have "nat \<bar>n\<bar> < 10 ^ 640" by (simp only:)
  then show ?thesis unfolding digit_count_def by (intro length_str_nat_le) simp_all
qed

lemma final_ap_count_short:
  assumes "analyze_warehouse_layout w l h = Inr la"
    and "calculate_capacity_requirements n devs = Inr cap"
  shows "digit_count (max (total_aps la) (aps_for_capacity cap)) \<le> 640"
proof -
  have "(2::int) ^ 1024 \<le> 2 ^ 2048" by (rule power_increasing) simp_all
  then have "\<bar>aps_for_capacity cap\<bar> \<le> 2 ^ 2048"
    using aps_for_capacity_below [OF assms(2)] by linarith
  then have "\<bar>max (total_aps la) (aps_for_capacity cap)\<bar> \<le> 2 ^ 2048"
    using total_aps_below [OF assms(1)] by (simp add: max_def)
  then show ?thesis by (rule digit_count_below)
qed

text \<open>
  C2. Every report that \<open>generate_optimization_report\<close> returns holds the layout analysis
  and the capacity estimate of the run's arguments, and its recommended access-point count
  is the larger of the layout's total and the capacity-driven count. Whenever the two
  components return, the function builds such a report and returns it, unless writing it
  raises: \<open>PermissionError\<close> when the file cannot be written, \<open>ValueError\<close> when
  \<open>json.dump\<close> meets an int with more digits than the interpreter's limit; the count
  itself has at most 640 digits, so that formatting it into the first recommendation is
  never refused. For the example
  facility of 200 by 300 by 12 m with the example device mix the run returns whenever the
  file can be written, the two counts are 54 and 4, and the recommendation is 54.
\<close>

theorem report_final_ap_count:
  "(generate_optimization_report nm d di w = (Inr r, w') \<longrightarrow>
      recommended_aps (executive_summary r) =
        max (total_aps (layout_analysis r)) (aps_for_capacity (capacity_analysis r))
      \<and> analyze_warehouse_layout (dim_width d) (dim_length d) (dim_height d)
          = Inr (layout_analysis r)
      \<and> calculate_capacity_requirements (info_total_devices di) (info_device_types di)
          = Inr (capacity_analysis r))
   \<and> (analyze_warehouse_layout (dim_width d) (dim_length d) (dim_height d) = Inr la
        \<and> calculate_capacity_requirements (info_total_devices di) (info_device_types di)
            = Inr cap \<longrightarrow>
      (\<exists>built. layout_analysis built = la \<and> capacity_analysis built = cap
         \<and> recommended_aps (executive_summary built) = max (total_aps la) (aps_for_capacity cap)
         \<and> fst (generate_optimization_report nm d di w) =
             (if files w report_file = Denied then Inl PermissionError
              else if json_dump_fails (int_max_str_digits w) built then Inl ValueError
              else Inr built)))
   \<and> (analyze_warehouse_layout (dim_width d) (dim_length d) (dim_height d) = Inr la
        \<and> calculate_capacity_requirements (info_total_devices di) (info_device_types di)
            = Inr cap \<longrightarrow>
      digit_count (max (total_aps la) (aps_for_capacity cap)) \<le> 640
      \<and> \<not> repr_too_long (int_max_str_digits w) (max (total_aps la) (aps_for_capacity cap)))
   \<and> (files w report_file \<noteq> Denied \<longrightarrow>
      (\<exists>ex w1. generate_optimization_report ''FC-EXAMPLE-01'' example_dimensions
                  example_devices w = (Inr ex, w1)
         \<and> total_aps (layout_analysis ex) = 54
         \<and> aps_for_capacity (capacity_analysis ex) = 4
         \<and> recommended_aps (executive_summary ex) = 54))"
proof -
  have short: "analyze_warehouse_layout (dim_width d) (dim_length d) (dim_height d) = Inr la
        \<and> calculate_capacity_requirements (info_total_devices di) (info_device_types di)
            = Inr cap \<longrightarrow>
      digit_count (max (total_aps la) (aps_for_capacity cap)) \<le> 640
      \<and> \<not> repr_too_long (int_max_str_digits w) (max (total_aps la) (aps_for_capacity cap))"
  proof
    assume a: "analyze_warehouse_layout (dim_width d) (dim_length d) (dim_height d) = Inr la
        \<and> calculate_capacity_requirements (info_total_devices di) (info_device_types di)
            = Inr cap"
    have "digit_count (max (total_aps la) (aps_for_capacity cap)) \<le> 640"
      using final_ap_count_short [OF conjunct1 [OF a] conjunct2 [OF a]] .
    then show "digit_count (max (total_aps la) (aps_for_capacity cap)) \<le> 640
      \<and> \<not> repr_too_long (int_max_str_digits w) (max (total_aps la) (aps_for_capacity cap))"
      by (simp add: repr_too_long_def)
  qed
  have partial: "generate_optimization_report nm d di w = (Inr r, w') \<longrightarrow>
      recommended_aps (executive_summary r) =
        max (total_aps (layout_analysis r)) (aps_for_capacity (capacity_analysis r))
      \<and> analyze_warehouse_layout (dim_width d) (dim_length d) (dim_height d)
          = Inr (layout_analysis r)
      \<and> calculate_capacity_requirements (info_total_devices di) (info_device_types di)
          = Inr (capacity_analysis r)"
    by (simp add: report_parts)
  have outcome: "analyze_warehouse_layout (dim_width d) (dim_length d) (dim_height d) = Inr la
        \<and> calculate_capacity_requirements (info_total_devices di) (info_device_types di)
            = Inr cap \<longrightarrow>
      (\<exists>built. layout_analysis built = la \<and> capacity_analysis built = cap
         \<and> recommended_aps (executive_summary built) = max (total_aps la) (aps_for_capacity cap)
         \<and> fst (generate_optimization_report nm d di w) =
             (if files w report_file = Denied then Inl PermissionError
              else if json_dump_fails (int_max_str_digits w) built then Inl ValueError
              else Inr built))"
  proof
    assume a: "analyze_warehouse_layout (dim_width d) (dim_length d) (dim_height d) = Inr la
        \<and> calculate_capacity_requirements (info_total_devices di) (info_device_types di)
            = Inr cap"
    obtain plan where plan: "generate_channel_plan la True = Inr plan"
      using generate_channel_plan_char [of la True] by blast
    show "\<exists>built. layout_analysis built = la \<and> capacity_analysis built = cap
         \<and> recommended_aps (executive_summary built) = max (total_aps la) (aps_for_capacity cap)
         \<and> fst (generate_optimization_report nm d di w) =
             (if files w report_file = Denied then Inl PermissionError
              else if json_dump_fails (int_max_str_digits w) built then Inl ValueError
              else Inr built)"
      using report_outcome [OF conjunct1 [OF a] conjunct2 [OF a] plan, of nm w] by blast
  qed
  have example: "files w report_file \<noteq> Denied \<longrightarrow>
      (\<exists>ex w1. generate_optimization_report ''FC-EXAMPLE-01'' example_dimensions
                  example_devices w = (Inr ex, w1)
         \<and> total_aps (layout_analysis ex) = 54
         \<and> aps_for_capacity (capacity_analysis ex) = 4
         \<and> recommended_aps (executive_summary ex) = 54)"
    using example_report_returns [of w "''FC-EXAMPLE-01''"] by blast
  show ?thesis
    by (intro conjI partial outcome short example)
qed

theorem report_final_ap_count_witness:
  "\<exists>r w'. generate_optimization_report ''FC-EXAMPLE-01'' example_dimensions example_devices
       \<lparr>rng = sconst 0, clock = sconst ''2025-01-01T09:00:00'', stdout = [],
        files = (\<lambda>p. Absent), int_max_str_digits = 4300\<rparr> = (Inr r, w')
     \<and> total_aps (layout_analysis r) = 54
     \<and> aps_for_capacity (capacity_analysis r) = 4
     \<and> recommended_aps (executive_summary r) = 54
     \<and> recommended_aps (executive_summary r) =
         max (total_aps (layout_analysis r)) (aps_for_capacity (capacity_analysis r))"
proof -
  let ?w = "\<lparr>rng = sconst 0, clock = sconst ''2025-01-01T09:00:00'', stdout = [],
        files = (\<lambda>p. Absent), int_max_str_digits = 4300\<rparr>"
  have wr: "files ?w report_file \<noteq> Denied" by simp
  obtain r w' where r: "generate_optimization_report ''FC-EXAMPLE-01'' example_dimensions
      example_devices ?w = (Inr r, w')"
    and v: "total_aps (layout_analysis r) = 54" "aps_for_capacity (capacity_analysis r) = 4"
      "recommended_aps (executive_summary r) = 54"
    using report_final_ap_count [of "''FC-EXAMPLE-01''" example_dimensions example_devices ?w]
      wr by blast
  have "recommended_aps (executive_summary r) =
         max (total_aps (layout_analysis r)) (aps_for_capacity (capacity_analysis r))"
    using report_final_ap_count
      [of "''FC-EXAMPLE-01''" example_dimensions example_devices ?w r w'] r by blast
  with r v show ?thesis by blast
qed

section \<open>Properties of the visualizer\<close>

text \<open>
  C9. When the report file is absent, \<open>visualize_channel_plan\<close> prints the advice to run
  the optimizer first and returns normally, whatever the remainder of its body would do
  with a report: no exception reaches the caller.
\<close>

theorem visualize_channel_plan_missing_report:
  assumes "files w path = Absent"
  shows "visualize_channel_plan render path w =
           (Inr (), w\<lparr>stdout := stdout w @ [''No report found. Run channel_optimizer.py first.'']\<rparr>)"
  using assms by (simp add: visualize_channel_plan_def load_report_def print_line_def)

theorem visualize_channel_plan_missing_report_witness:
  "visualize_channel_plan (\<lambda>r w. (Inl KeyError, w)) report_file
     \<lparr>rng = sconst 0, clock = sconst ''2025-01-01T09:00:00'', stdout = [],
      files = (\<lambda>p. Absent), int_max_str_digits = 4300\<rparr> =
   (Inr (), \<lparr>rng = sconst 0, clock = sconst ''2025-01-01T09:00:00'',
      stdout = [''No report found. Run channel_optimizer.py first.''],
      files = (\<lambda>p. Absent), int_max_str_digits = 4300\<rparr>)"
  using visualize_channel_plan_missing_report
    [of "\<lparr>rng = sconst 0, clock = sconst ''2025-01-01T09:00:00'', stdout = [],
      files = (\<lambda>p. Absent), int_max_str_digits = 4300\<rparr>" report_file "\<lambda>r w. (Inl KeyError, w)"]
  by simp

end
